theory Spec2Isabelle
  imports Complex_Main "HOL-Library.Word"
begin

unbundle bit_operations_syntax

section \<open>Texts, cursors and outcomes\<close>

text \<open>
  The parser of \<^verbatim>\<open>sjson.cpp\<close> walks a NUL-terminated C string with a
  \<^verbatim>\<open>const char *\<close> cursor. A text is modelled by the list of its characters
  before the terminating NUL, a cursor by an index into it: index \<open>length inp\<close> is
  the terminating NUL, and every index beyond it lies outside the array, where a read
  has no defined result. A pointer that may be null is a \<open>nat option\<close>.

  A C function of the parser either returns normally, or returns the null pointer
  (having left some value in the process-wide error pointer \<^verbatim>\<open>ep\<close>), or
  runs into undefined behaviour. These are the three constructors of \<open>outcome\<close>;
  \<open>Null e\<close> records the value \<open>e\<close> that \<^verbatim>\<open>ep\<close> holds when the null
  pointer is returned (\<open>None\<close> is the null error pointer that
  \<^verbatim>\<open>sJSONparse\<close> installs on entry).
\<close>

datatype fault =
  NullDeref | OutOfBounds | SignedOverflow | ConversionOutOfRange | ScanUnmodelled | OutOfFuel

datatype 'a outcome = Ret 'a | Null "nat option" | Fault fault

definition NUL :: char where
  "NUL = CHR 0x00"

definition peek :: "string \<Rightarrow> nat \<Rightarrow> char outcome" where
  "peek inp i =
     (if i < length inp then Ret (inp ! i)
      else if i = length inp then Ret NUL
      else Fault OutOfBounds)"

text \<open>
  Sequencing: the second computation runs on the value the first one returned; a null
  return and a fault end the sequence.
\<close>

fun obind :: "'a outcome \<Rightarrow> ('a \<Rightarrow> 'b outcome) \<Rightarrow> 'b outcome" where
  "obind (Ret x) k = k x"
| "obind (Null e) k = Null e"
| "obind (Fault f) k = Fault f"

section \<open>The skipper\<close>

text \<open>
  \<^verbatim>\<open>while (in && *in && (unsigned char)*in<=32) ++in;\<close> for a cursor that is
  not null.
\<close>

function skip_white :: "string \<Rightarrow> nat \<Rightarrow> nat outcome" where
  "skip_white inp i =
     (case peek inp i of
        Ret c \<Rightarrow>
          if c \<noteq> NUL \<and> (of_char c :: nat) \<le> 32 then skip_white inp (Suc i) else Ret i
      | Null e \<Rightarrow> Null e
      | Fault f \<Rightarrow> Fault f)"
  by pat_completeness auto
termination
  by (relation "measure (\<lambda>(inp, i). length inp - i)")
     (auto simp: peek_def NUL_def split: if_splits)

declare skip_white.simps [simp del]

text \<open>
  \<^verbatim>\<open>while(*in && ((*in != 10 && *in != 13))) ++in;\<close>: a line comment runs to
  the next line feed or carriage return, or to the end of the text.
\<close>

function skip_line :: "string \<Rightarrow> nat \<Rightarrow> nat outcome" where
  "skip_line inp i =
     (case peek inp i of
        Ret c \<Rightarrow>
          if c \<noteq> NUL \<and> (of_char c :: nat) \<noteq> 10 \<and> (of_char c :: nat) \<noteq> 13
          then skip_line inp (Suc i) else Ret i
      | Null e \<Rightarrow> Null e
      | Fault f \<Rightarrow> Fault f)"
  by pat_completeness auto
termination
  by (relation "measure (\<lambda>(inp, i). length inp - i)")
     (auto simp: peek_def NUL_def split: if_splits)

declare skip_line.simps [simp del]

text \<open>\<^verbatim>\<open>while(*in && (*in != '*')) ++in;\<close>\<close>

function find_star :: "string \<Rightarrow> nat \<Rightarrow> nat outcome" where
  "find_star inp i =
     (case peek inp i of
        Ret c \<Rightarrow> if c \<noteq> NUL \<and> c \<noteq> CHR ''*'' then find_star inp (Suc i) else Ret i
      | Null e \<Rightarrow> Null e
      | Fault f \<Rightarrow> Fault f)"
  by pat_completeness auto
termination
  by (relation "measure (\<lambda>(inp, i). length inp - i)")
     (auto simp: peek_def NUL_def split: if_splits)

declare find_star.simps [simp del]

lemma find_star_ge: "find_star inp i = Ret j \<Longrightarrow> i \<le> j"
proof (induction inp i rule: find_star.induct)
  case (1 t i)
  from "1.prems" show ?case
    by (subst (asm) find_star.simps)
       (auto split: outcome.splits if_splits dest!: "1.IH")
qed

text \<open>
  The body of the block-comment branch, from the label \<^verbatim>\<open>find_next\<close> to
  \<^verbatim>\<open>in += 2\<close>. The cursor stands on the opening slash when the branch is
  entered, so the first star found is the one that opens the comment. The read of
  \<^verbatim>\<open>*(in+1)\<close> is made whether or not \<^verbatim>\<open>*in\<close> is the terminating
  NUL.
\<close>

function skip_block :: "string \<Rightarrow> nat \<Rightarrow> nat outcome" where
  "skip_block inp i =
     (case find_star inp i of
        Ret j \<Rightarrow>
          (case peek inp (Suc j) of
             Ret c \<Rightarrow> if c \<noteq> NUL \<and> c \<noteq> CHR ''/'' then skip_block inp (Suc j) else Ret (j + 2)
           | Null e \<Rightarrow> Null e
           | Fault f \<Rightarrow> Fault f)
      | Null e \<Rightarrow> Null e
      | Fault f \<Rightarrow> Fault f)"
  by pat_completeness auto
termination
  by (relation "measure (\<lambda>(inp, i). length inp - i)")
     (auto simp: peek_def NUL_def split: if_splits dest!: find_star_ge)

declare skip_block.simps [simp del]

lemma skip_white_ge: "skip_white inp i = Ret j \<Longrightarrow> i \<le> j"
proof (induction inp i rule: skip_white.induct)
  case (1 t i)
  from "1.prems" show ?case
    by (subst (asm) skip_white.simps)
       (auto split: outcome.splits if_splits dest!: "1.IH")
qed

lemma skip_line_ge: "skip_line inp i = Ret j \<Longrightarrow> i \<le> j"
proof (induction inp i rule: skip_line.induct)
  case (1 t i)
  from "1.prems" show ?case
    by (subst (asm) skip_line.simps)
       (auto split: outcome.splits if_splits dest!: "1.IH")
qed

lemma skip_line_gt:
  "skip_line inp i = Ret j \<Longrightarrow> peek inp i = Ret (CHR ''/'') \<Longrightarrow> i < j"
  by (subst (asm) skip_line.simps)
     (auto simp: NUL_def split: if_splits outcome.splits dest!: skip_line_ge)

lemma skip_block_gt: "skip_block inp i = Ret j \<Longrightarrow> i < j"
proof (induction inp i rule: skip_block.induct)
  case (1 t i)
  from "1.prems" obtain k where k: "find_star t i = Ret k"
    by (subst (asm) skip_block.simps) (auto split: outcome.splits)
  then have "i \<le> k"
    by (rule find_star_ge)
  moreover from "1.prems" k have "Suc k < j \<or> j = k + 2"
    by (subst (asm) skip_block.simps)
       (auto split: outcome.splits if_splits dest: "1.IH" [OF k])
  ultimately show ?case
    by auto
qed

text \<open>
  The \<^verbatim>\<open>do ... while(checkAgain == true)\<close> loop of \<^verbatim>\<open>skip\<close>: one round
  skips blanks, then a line comment or a block comment if one starts here, and goes
  round again after a comment.
\<close>

function skip_loop :: "string \<Rightarrow> nat \<Rightarrow> nat outcome" where
  "skip_loop inp i =
     (case skip_white inp i of
        Ret j \<Rightarrow>
          (case peek inp j of
             Ret c \<Rightarrow>
               if c \<noteq> NUL \<and> c = CHR ''/'' then
                 (case peek inp (Suc j) of
                    Ret d \<Rightarrow>
                      if d \<noteq> NUL \<and> d = CHR ''/'' then
                        (case skip_line inp j of
                           Ret k \<Rightarrow> skip_loop inp k
                         | Null e \<Rightarrow> Null e
                         | Fault f \<Rightarrow> Fault f)
                      else if d \<noteq> NUL \<and> d = CHR ''*'' then
                        (case skip_block inp j of
                           Ret k \<Rightarrow> skip_loop inp k
                         | Null e \<Rightarrow> Null e
                         | Fault f \<Rightarrow> Fault f)
                      else Ret j
                  | Null e \<Rightarrow> Null e
                  | Fault f \<Rightarrow> Fault f)
               else Ret j
           | Null e \<Rightarrow> Null e
           | Fault f \<Rightarrow> Fault f)
      | Null e \<Rightarrow> Null e
      | Fault f \<Rightarrow> Fault f)"
  by pat_completeness auto
termination
proof (relation "measure (\<lambda>(inp, i). Suc (length inp) - i)", goal_cases)
  case 1
  show ?case by simp
next
  case (2 t i j c d k)
  from 2 have "i \<le> j" "j < k" "j < length t"
    by (auto dest: skip_white_ge skip_line_gt simp: peek_def NUL_def split: if_splits)
  then show ?case by simp
next
  case (3 t i j c d k)
  from 3 have "i \<le> j" "j < k" "j < length t"
    by (auto dest: skip_white_ge skip_block_gt simp: peek_def NUL_def split: if_splits)
  then show ?case by simp
qed

declare skip_loop.simps [simp del]

text \<open>
  \<^verbatim>\<open>skip\<close> itself. The \<^verbatim>\<open>while\<close> loop guards its reads with
  \<^verbatim>\<open>in &&\<close>, the \<^verbatim>\<open>if(*in && ...)\<close> after it does not: on the null pointer
  the loop is left at once and \<^verbatim>\<open>*in\<close> dereferences it.
\<close>

fun skip :: "string \<Rightarrow> nat option \<Rightarrow> nat outcome" where
  "skip inp None = Fault NullDeref"
| "skip inp (Some i) = skip_loop inp i"


section \<open>Nodes\<close>

text \<open>
  The value fields of \<^verbatim>\<open>struct sJSON\<close>; the three link fields come with the
  two representations of the links below. A \<^verbatim>\<open>char *\<close> field is a string
  option (\<open>None\<close> the null pointer, the string the characters before the NUL). The
  \<^verbatim>\<open>double\<close> is a value of a type parameter \<open>'d\<close>: the arithmetic on it
  belongs to the platform and is a parameter of the model (the record \<open>env\<close>), so
  nothing is assumed about rounding or range. \<^verbatim>\<open>nameString\<close> exists only when
  \<^verbatim>\<open>WRITE_SUPPORT_ENABLED\<close> is defined; without it the field stays
  \<open>None\<close>.
\<close>

record 'd sJSON_data =
  type :: int
  valueString :: "string option"
  valueInt :: int
  valueDouble :: 'd
  nameString :: "string option"
  nameHash :: "32 word"

definition sJSON_False :: int where "sJSON_False = 0"
definition sJSON_True :: int where "sJSON_True = 1"
definition sJSON_NULL :: int where "sJSON_NULL = 2"
definition sJSON_Number :: int where "sJSON_Number = 3"
definition sJSON_String :: int where "sJSON_String = 4"
definition sJSON_Array :: int where "sJSON_Array = 5"
definition sJSON_Object :: int where "sJSON_Object = 6"
definition sJSON_IsReference :: int where "sJSON_IsReference = 256"

text \<open>
  What the code takes from outside \<^verbatim>\<open>sjson.cpp\<close>: the string hash
  \<^verbatim>\<open>eastl::murmurString\<close> (its header is not part of the sources), the
  arithmetic of \<^verbatim>\<open>double\<close> with \<^verbatim>\<open>pow\<close> and the conversion of an
  \<^verbatim>\<open>int\<close> to \<^verbatim>\<open>double\<close>, and the compile-time switch
  \<^verbatim>\<open>WRITE_SUPPORT_ENABLED\<close>. \<open>dbl_val\<close> is the number that a
  \<^verbatim>\<open>double\<close> stands for, a rational number when it is finite and \<open>None\<close>
  when it is an infinity or not a number. \<open>print_number\<close> is the function of
  that name: it reads \<^verbatim>\<open>valueDouble\<close> and \<^verbatim>\<open>valueInt\<close> of a node and
  has \<^verbatim>\<open>sprintf\<close> format one of them, with \<^verbatim>\<open>%d\<close>,
  \<^verbatim>\<open>%.0f\<close>, \<^verbatim>\<open>%e\<close> or \<^verbatim>\<open>%f\<close>; the text that the C
  library produces is taken as given.
\<close>

record 'd env =
  murmurString :: "string \<Rightarrow> 32 word"
  dbl_of_int :: "int \<Rightarrow> 'd"
  dbl_add :: "'d \<Rightarrow> 'd \<Rightarrow> 'd"
  dbl_sub :: "'d \<Rightarrow> 'd \<Rightarrow> 'd"
  dbl_mul :: "'d \<Rightarrow> 'd \<Rightarrow> 'd"
  dbl_pow :: "'d \<Rightarrow> 'd \<Rightarrow> 'd"
  dbl_val :: "'d \<Rightarrow> rat option"
  print_number :: "'d \<Rightarrow> int \<Rightarrow> string"
  WRITE_SUPPORT_ENABLED :: bool

text \<open>
  The tree that the parser builds. The parser allocates every node itself and links the
  children of an array or object into a chain (\<^verbatim>\<open>item->child\<close>, then
  \<^verbatim>\<open>child->next = new_item; new_item->prev = child\<close>), so no node is shared and
  the chain is the list of the children in the order of their allocation.
  Allocation is taken to succeed.
\<close>

datatype 'd tree = Tree (node: "'d sJSON_data") (kids: "'d tree list")

definition upd :: "('d sJSON_data \<Rightarrow> 'd sJSON_data) \<Rightarrow> 'd tree \<Rightarrow> 'd tree" where
  "upd f t = Tree (f (node t)) (kids t)"

text \<open>\<^verbatim>\<open>sJSON_New_Item\<close>: a node of zero bytes.\<close>

definition sJSON_New_Item :: "'d env \<Rightarrow> 'd tree" where
  "sJSON_New_Item env =
     Tree \<lparr>type = 0, valueString = None, valueInt = 0, valueDouble = dbl_of_int env 0,
           nameString = None, nameHash = 0\<rparr> []"

section \<open>The number codec\<close>

definition is_digit :: "char \<Rightarrow> bool" where
  "is_digit c \<longleftrightarrow> (48::nat) \<le> of_char c \<and> (of_char c :: nat) \<le> 57"

text \<open>
  \<^verbatim>\<open>*num - '0'\<close>, an \<^verbatim>\<open>int\<close>. Plain \<^verbatim>\<open>char\<close> is read as signed
  (as on x86); on a digit, the only case the loops of a well-formed literal meet, the
  signedness does not matter.
\<close>

definition digit_val :: "char \<Rightarrow> int" where
  "digit_val c =
     (if (of_char c :: nat) < 128 then int (of_char c) else int (of_char c) - 256) - 48"

text \<open>\<^verbatim>\<open>n=(n*10.0)+(*num -'0')\<close>\<close>

definition accum :: "'d env \<Rightarrow> 'd \<Rightarrow> char \<Rightarrow> 'd" where
  "accum env n c = dbl_add env (dbl_mul env n (dbl_of_int env 10)) (dbl_of_int env (digit_val c))"

text \<open>
  \<^verbatim>\<open>do n=(n*10.0)+(*num++ -'0'); while (*num>='0' && *num<='9');\<close> The body
  runs once before the test.
\<close>

function int_part :: "'d env \<Rightarrow> string \<Rightarrow> nat \<Rightarrow> 'd \<Rightarrow> ('d \<times> nat) outcome" where
  "int_part env inp i n =
     (case peek inp i of
        Ret c \<Rightarrow>
          (case peek inp (Suc i) of
             Ret d \<Rightarrow>
               if is_digit d then int_part env inp (Suc i) (accum env n c)
               else Ret (accum env n c, Suc i)
           | Null e \<Rightarrow> Null e
           | Fault f \<Rightarrow> Fault f)
      | Null e \<Rightarrow> Null e
      | Fault f \<Rightarrow> Fault f)"
  by pat_completeness auto
termination
  by (relation "measure (\<lambda>(env, inp, i, n). length inp - i)")
     (auto simp: peek_def NUL_def is_digit_def split: if_splits)

declare int_part.simps [simp del]

text \<open>
  \<^verbatim>\<open>do n=(n*10.0)+(*num++ -'0'),scale--; while (*num>='0' && *num<='9');\<close>
  The body runs once on the character after the decimal point, whatever it is.
\<close>

function frac_part ::
  "'d env \<Rightarrow> string \<Rightarrow> nat \<Rightarrow> 'd \<Rightarrow> 'd \<Rightarrow> ('d \<times> 'd \<times> nat) outcome" where
  "frac_part env inp i n scale =
     (case peek inp i of
        Ret c \<Rightarrow>
          (case peek inp (Suc i) of
             Ret d \<Rightarrow>
               if is_digit d
               then frac_part env inp (Suc i) (accum env n c)
                      (dbl_sub env scale (dbl_of_int env 1))
               else Ret (accum env n c, dbl_sub env scale (dbl_of_int env 1), Suc i)
           | Null e \<Rightarrow> Null e
           | Fault f \<Rightarrow> Fault f)
      | Null e \<Rightarrow> Null e
      | Fault f \<Rightarrow> Fault f)"
  by pat_completeness auto
termination
  by (relation "measure (\<lambda>(env, inp, i, n, scale). length inp - i)")
     (auto simp: peek_def NUL_def is_digit_def split: if_splits)

declare frac_part.simps [simp del]

text \<open>
  \<^verbatim>\<open>while (*num>='0' && *num<='9') subscale=(subscale*10)+(*num++ - '0');\<close>
  \<^verbatim>\<open>subscale\<close> is an \<^verbatim>\<open>int\<close>: a value beyond \<^verbatim>\<open>INT_MAX\<close> is a
  signed overflow, which C leaves undefined.
\<close>

definition INT_MAX :: int where
  "INT_MAX = 2147483647"

function exp_part :: "string \<Rightarrow> nat \<Rightarrow> int \<Rightarrow> (int \<times> nat) outcome" where
  "exp_part inp i subscale =
     (case peek inp i of
        Ret c \<Rightarrow>
          if is_digit c then
            if subscale * 10 + digit_val c \<le> INT_MAX
            then exp_part inp (Suc i) (subscale * 10 + digit_val c)
            else Fault SignedOverflow
          else Ret (subscale, i)
      | Null e \<Rightarrow> Null e
      | Fault f \<Rightarrow> Fault f)"
  by pat_completeness auto
termination
  by (relation "measure (\<lambda>(inp, i, subscale). length inp - i)")
     (auto simp: peek_def NUL_def is_digit_def split: if_splits)

declare exp_part.simps [simp del]

text \<open>
  \<^verbatim>\<open>(int)n\<close>: the conversion of a \<^verbatim>\<open>double\<close> to \<^verbatim>\<open>int\<close>
  discards the fractional part, and it is undefined when \<open>n\<close> is not finite or
  the integral part is not a value of \<^verbatim>\<open>int\<close>.
\<close>

definition INT_MIN :: int where
  "INT_MIN = - 2147483648"

definition truncate :: "rat \<Rightarrow> int" where
  "truncate x = (if 0 \<le> x then \<lfloor>x\<rfloor> else \<lceil>x\<rceil>)"

definition int_of_dbl :: "'d env \<Rightarrow> 'd \<Rightarrow> int outcome" where
  "int_of_dbl env n =
     (case dbl_val env n of
        None \<Rightarrow> Fault ConversionOutOfRange
      | Some x \<Rightarrow>
          if INT_MIN \<le> truncate x \<and> truncate x \<le> INT_MAX then Ret (truncate x)
          else Fault ConversionOutOfRange)"

text \<open>
  \<^verbatim>\<open>parse_number\<close>, statement by statement. Each of the first five definitions
  is one statement of the function and returns what it has changed, the last component
  being the cursor \<^verbatim>\<open>num\<close>.

  \<^verbatim>\<open>if (*num=='-') sign=-1,num++;\<close>
\<close>

definition number_sign :: "'d env \<Rightarrow> string \<Rightarrow> nat \<Rightarrow> ('d \<times> nat) outcome" where
  "number_sign env inp num =
     obind (peek inp num) (\<lambda>c.
     if c = CHR ''-'' then Ret (dbl_of_int env (- 1), Suc num) else Ret (dbl_of_int env 1, num))"

text \<open>\<^verbatim>\<open>if (*num=='0') num++;\<close>\<close>

definition number_zero :: "string \<Rightarrow> nat \<Rightarrow> nat outcome" where
  "number_zero inp num =
     obind (peek inp num) (\<lambda>c. if c = CHR ''0'' then Ret (Suc num) else Ret num)"

text \<open>
  \<^verbatim>\<open>if (*num>='1' && *num<='9') do n=(n*10.0)+(*num++ -'0'); while (...);\<close>
\<close>

definition number_int :: "'d env \<Rightarrow> string \<Rightarrow> nat \<Rightarrow> 'd \<Rightarrow> ('d \<times> nat) outcome" where
  "number_int env inp num n =
     obind (peek inp num) (\<lambda>c.
     if (49::nat) \<le> of_char c \<and> (of_char c :: nat) \<le> 57 then int_part env inp num n
     else Ret (n, num))"

text \<open>
  \<^verbatim>\<open>if (*num=='.') {num++; do n=(n*10.0)+(*num++ -'0'),scale--; while (...);}\<close>
\<close>

definition number_frac ::
  "'d env \<Rightarrow> string \<Rightarrow> nat \<Rightarrow> 'd \<Rightarrow> 'd \<Rightarrow> ('d \<times> 'd \<times> nat) outcome" where
  "number_frac env inp num n scale =
     obind (peek inp num) (\<lambda>c.
     if c = CHR ''.'' then frac_part env inp (Suc num) n scale else Ret (n, scale, num))"

text \<open>
  \<^verbatim>\<open>if (*num=='e' || *num=='E') { num++; if (*num=='+') num++;
  else if (*num=='-') signsubscale=-1,num++; while (...) subscale=...; }\<close>
\<close>

definition number_exp :: "string \<Rightarrow> nat \<Rightarrow> int \<Rightarrow> int \<Rightarrow> (int \<times> int \<times> nat) outcome" where
  "number_exp inp num subscale signsubscale =
     obind (peek inp num) (\<lambda>c.
     if c = CHR ''e'' \<or> c = CHR ''E'' then
       obind (peek inp (Suc num)) (\<lambda>s.
       if s = CHR ''+'' then
         obind (exp_part inp (Suc (Suc num)) subscale) (\<lambda>(subscale', num').
         Ret (subscale', signsubscale, num'))
       else if s = CHR ''-'' then
         obind (exp_part inp (Suc (Suc num)) subscale) (\<lambda>(subscale', num').
         Ret (subscale', - 1, num'))
       else
         obind (exp_part inp (Suc num) subscale) (\<lambda>(subscale', num').
         Ret (subscale', signsubscale, num')))
     else Ret (subscale, signsubscale, num))"

text \<open>
  The function: \<^verbatim>\<open>double n=0,sign=1,scale=0; int subscale=0,signsubscale=1;\<close>,
  the five statements, then
  \<^verbatim>\<open>n=sign*n*pow(10.0,(scale+subscale*signsubscale));\<close> and the three
  assignments to the item.
\<close>

definition parse_number ::
  "'d env \<Rightarrow> string \<Rightarrow> 'd tree \<Rightarrow> nat \<Rightarrow> ('d tree \<times> nat) outcome" where
  "parse_number env inp item num =
     obind (number_sign env inp num) (\<lambda>(sign, num1).
     obind (number_zero inp num1) (\<lambda>num2.
     obind (number_int env inp num2 (dbl_of_int env 0)) (\<lambda>(n1, num3).
     obind (number_frac env inp num3 n1 (dbl_of_int env 0)) (\<lambda>(n2, scale, num4).
     obind (number_exp inp num4 0 1) (\<lambda>(subscale, signsubscale, num5).
     let n = dbl_mul env (dbl_mul env sign n2)
               (dbl_pow env (dbl_of_int env 10)
                  (dbl_add env scale (dbl_of_int env (subscale * signsubscale))))
     in obind (int_of_dbl env n) (\<lambda>i.
        Ret (upd (\<lambda>d. d\<lparr>valueDouble := n, valueInt := i, type := sJSON_Number\<rparr>) item,
             num5)))))))"

section \<open>The string codec\<close>

definition dquote :: char where
  "dquote = CHR 0x22"

definition bslash :: char where
  "bslash = CHR 0x5C"

text \<open>
  The first pass of \<^verbatim>\<open>parse_string\<close>, which sizes the buffer:
  \<^verbatim>\<open>while (*ptr!='\"' && *ptr && ++len) if (*ptr++ == '\\') ptr++;\<close>
\<close>

function measure_string :: "string \<Rightarrow> nat \<Rightarrow> nat \<Rightarrow> nat outcome" where
  "measure_string inp ptr len =
     (case peek inp ptr of
        Ret c \<Rightarrow>
          if c \<noteq> dquote \<and> c \<noteq> NUL then
            if c = bslash then measure_string inp (ptr + 2) (Suc len)
            else measure_string inp (Suc ptr) (Suc len)
          else Ret len
      | Null e \<Rightarrow> Null e
      | Fault f \<Rightarrow> Fault f)"
  by pat_completeness auto
termination
  by (relation "measure (\<lambda>(inp, ptr, len). Suc (length inp) - ptr)")
     (auto simp: peek_def NUL_def split: if_splits)

declare measure_string.simps [simp del]

text \<open>
  \<^verbatim>\<open>sscanf(ptr+1,"%4x",&uc)\<close> belongs to the C library. It is modelled where
  the four characters are hexadecimal digits, and \<^verbatim>\<open>uc\<close> then is their value;
  on any other text the model stops with \<open>ScanUnmodelled\<close>.
\<close>

definition is_hex :: "char \<Rightarrow> bool" where
  "is_hex c \<longleftrightarrow>
     (48::nat) \<le> of_char c \<and> (of_char c :: nat) \<le> 57 \<or>
     (97::nat) \<le> of_char c \<and> (of_char c :: nat) \<le> 102 \<or>
     (65::nat) \<le> of_char c \<and> (of_char c :: nat) \<le> 70"

definition hex_val :: "char \<Rightarrow> nat" where
  "hex_val c =
     (if (of_char c :: nat) \<le> 57 then of_char c - 48
      else if (97::nat) \<le> of_char c then of_char c - 87
      else of_char c - 55)"

definition scan_hex4 :: "string \<Rightarrow> nat \<Rightarrow> 32 word outcome" where
  "scan_hex4 inp i =
     (if i + 4 \<le> length inp \<and> list_all is_hex (take 4 (drop i inp))
      then Ret (of_nat (foldl (\<lambda>v c. v * 16 + hex_val c) 0 (take 4 (drop i inp))))
      else Fault ScanUnmodelled)"

text \<open>
  The bytes that the \<^verbatim>\<open>case 'u'\<close> branch writes for \<^verbatim>\<open>uc\<close>:
  \<^verbatim>\<open>len=3;if (uc<0x80) len=1;else if (uc<0x800) len=2;\<close> and then the
  \<^verbatim>\<open>switch (len)\<close>, whose cases fall through and fill the bytes from the last
  to the first. An assignment to a \<^verbatim>\<open>char\<close> keeps the low eight bits.
\<close>

definition firstByteMark :: "32 word list" where
  "firstByteMark = [0x00, 0x00, 0xC0, 0xE0, 0xF0, 0xF8, 0xFC]"

definition to_char :: "32 word \<Rightarrow> char" where
  "to_char w = char_of (unat w)"

definition utf8_bytes :: "32 word \<Rightarrow> string" where
  "utf8_bytes uc =
     (let len = (if uc < 0x80 then 1 else if uc < 0x800 then 2 else (3::nat)) in
      if len = 3 then
        (let b3 = to_char ((uc OR 0x80) AND 0xBF); uc1 = drop_bit 6 uc;
             b2 = to_char ((uc1 OR 0x80) AND 0xBF); uc2 = drop_bit 6 uc1;
             b1 = to_char (uc2 OR firstByteMark ! len)
         in [b1, b2, b3])
      else if len = 2 then
        (let b2 = to_char ((uc OR 0x80) AND 0xBF); uc1 = drop_bit 6 uc;
             b1 = to_char (uc1 OR firstByteMark ! len)
         in [b1, b2])
      else [to_char (uc OR firstByteMark ! len)])"

text \<open>
  The second pass of \<^verbatim>\<open>parse_string\<close>: the loop that copies and unescapes.
  \<open>out\<close> holds the bytes written so far. After a backslash the cursor moves on by
  two characters, by six for \<^verbatim>\<open>\u\<close> and its four digits.
\<close>

function copy_string :: "string \<Rightarrow> nat \<Rightarrow> string \<Rightarrow> (string \<times> nat) outcome" where
  "copy_string inp ptr out =
     (case peek inp ptr of
        Ret c \<Rightarrow>
          if c \<noteq> dquote \<and> c \<noteq> NUL then
            if c \<noteq> bslash then copy_string inp (Suc ptr) (out @ [c])
            else
              (case peek inp (Suc ptr) of
                 Ret e \<Rightarrow>
                   if e = CHR ''b'' then copy_string inp (ptr + 2) (out @ [CHR 0x08])
                   else if e = CHR ''f'' then copy_string inp (ptr + 2) (out @ [CHR 0x0C])
                   else if e = CHR ''n'' then copy_string inp (ptr + 2) (out @ [CHR 0x0A])
                   else if e = CHR ''r'' then copy_string inp (ptr + 2) (out @ [CHR 0x0D])
                   else if e = CHR ''t'' then copy_string inp (ptr + 2) (out @ [CHR 0x09])
                   else if e = CHR ''u'' then
                     (case scan_hex4 inp (ptr + 2) of
                        Ret uc \<Rightarrow> copy_string inp (ptr + 6) (out @ utf8_bytes uc)
                      | Null x \<Rightarrow> Null x
                      | Fault f \<Rightarrow> Fault f)
                   else copy_string inp (ptr + 2) (out @ [e])
               | Null x \<Rightarrow> Null x
               | Fault f \<Rightarrow> Fault f)
          else Ret (out, ptr)
      | Null x \<Rightarrow> Null x
      | Fault f \<Rightarrow> Fault f)"
  by pat_completeness auto
termination
  by (relation "measure (\<lambda>(inp, ptr, out). Suc (length inp) - ptr)")
     (auto simp: peek_def NUL_def split: if_splits)

declare copy_string.simps [simp del]

text \<open>
  A buffer read as a C string ends at its first NUL (\<^verbatim>\<open>\u0000\<close> writes
  one).
\<close>

definition cstr :: "string \<Rightarrow> string" where
  "cstr out = takeWhile (\<lambda>c. c \<noteq> NUL) out"

text \<open>
  \<^verbatim>\<open>parse_string\<close>. The buffer has \<^verbatim>\<open>len+1\<close> bytes, for the bytes
  written and the closing NUL; writing more is a write out of bounds.
\<close>

definition parse_string :: "string \<Rightarrow> 'd tree \<Rightarrow> nat \<Rightarrow> ('d tree \<times> nat) outcome" where
  "parse_string inp item str =
     obind (peek inp str) (\<lambda>c.
     if c \<noteq> dquote then Null (Some str)
     else
       obind (measure_string inp (Suc str) 0) (\<lambda>len.
       obind (copy_string inp (Suc str) []) (\<lambda>(out, ptr).
       if len < length out then Fault OutOfBounds
       else
         obind (peek inp ptr) (\<lambda>q.
         Ret (upd (\<lambda>d. d\<lparr>valueString := Some (cstr out), type := sJSON_String\<rparr>) item,
              if q = dquote then Suc ptr else ptr)))))"

text \<open>
  The bareword branch of \<^verbatim>\<open>parse_string_or_identifier\<close>. Its two loops walk
  the same characters, the first to count them and the second to copy them; this is the
  second.
\<close>

definition is_ident_start :: "char \<Rightarrow> bool" where
  "is_ident_start c \<longleftrightarrow>
     c = CHR ''_'' \<or> (97::nat) \<le> of_char c \<and> (of_char c :: nat) \<le> 122 \<or>
     (65::nat) \<le> of_char c \<and> (of_char c :: nat) \<le> 90"

definition is_ident_char :: "char \<Rightarrow> bool" where
  "is_ident_char c \<longleftrightarrow> is_ident_start c \<or> is_digit c"

function ident_copy :: "string \<Rightarrow> nat \<Rightarrow> string \<Rightarrow> (string \<times> nat) outcome" where
  "ident_copy inp ptr out =
     (case peek inp ptr of
        Ret c \<Rightarrow>
          if c \<noteq> NUL \<and> is_ident_char c then ident_copy inp (Suc ptr) (out @ [c])
          else Ret (out, ptr)
      | Null e \<Rightarrow> Null e
      | Fault f \<Rightarrow> Fault f)"
  by pat_completeness auto
termination
  by (relation "measure (\<lambda>(inp, ptr, out). length inp - ptr)")
     (auto simp: peek_def NUL_def split: if_splits)

declare ident_copy.simps [simp del]

definition parse_string_or_identifier ::
  "string \<Rightarrow> 'd tree \<Rightarrow> nat \<Rightarrow> ('d tree \<times> nat) outcome" where
  "parse_string_or_identifier inp item str =
     obind (peek inp str) (\<lambda>c.
     if c = dquote then parse_string inp item str
     else if is_ident_start c then
       obind (ident_copy inp str []) (\<lambda>(out, ptr).
       Ret (upd (\<lambda>d. d\<lparr>valueString := Some out, type := sJSON_String\<rparr>) item, ptr))
     else Null (Some str))"

text \<open>
  \<^verbatim>\<open>print_string_ptr\<close>. The argument is a C string, so the loops end at a NUL.
  The first loop sizes the buffer: two bytes for a character of
  \<^verbatim>\<open>"\"\\\b\f\n\r\t"\<close>, six for another one below 32, one otherwise.
\<close>

definition is_short_escape :: "char \<Rightarrow> bool" where
  "is_short_escape c \<longleftrightarrow>
     c = dquote \<or> c = bslash \<or> c = CHR 0x08 \<or> c = CHR 0x0C \<or> c = CHR 0x0A \<or>
     c = CHR 0x0D \<or> c = CHR 0x09"

fun print_len :: "string \<Rightarrow> nat \<Rightarrow> nat" where
  "print_len [] len = len"
| "print_len (c # cs) len =
     (if c = NUL then len
      else if is_short_escape c then print_len cs (len + 2)
      else if (of_char c :: nat) < 32 then print_len cs (len + 6)
      else print_len cs (len + 1))"

text \<open>\<^verbatim>\<open>sprintf(ptr2,"u%04x",token)\<close> for an \<^verbatim>\<open>unsigned char\<close>.\<close>

definition hex_digit :: "nat \<Rightarrow> char" where
  "hex_digit n = ''0123456789abcdef'' ! (n mod 16)"

definition sprintf_u04x :: "char \<Rightarrow> string" where
  "sprintf_u04x token =
     [CHR ''u'', hex_digit (of_char token div 4096), hex_digit (of_char token div 256),
      hex_digit (of_char token div 16), hex_digit (of_char token)]"

fun print_chars :: "string \<Rightarrow> string" where
  "print_chars [] = []"
| "print_chars (c # cs) =
     (if c = NUL then []
      else if (31::nat) < of_char c \<and> c \<noteq> dquote \<and> c \<noteq> bslash then c # print_chars cs
      else
        bslash #
        (if c = bslash then [bslash]
         else if c = dquote then [dquote]
         else if c = CHR 0x08 then ''b''
         else if c = CHR 0x0C then ''f''
         else if c = CHR 0x0A then ''n''
         else if c = CHR 0x0D then ''r''
         else if c = CHR 0x09 then ''t''
         else sprintf_u04x c) @ print_chars cs)"

text \<open>
  The buffer has \<^verbatim>\<open>len+3\<close> bytes: the two quotes, the escaped characters and
  the closing NUL.
\<close>

definition print_string_ptr :: "string option \<Rightarrow> string outcome" where
  "print_string_ptr str =
     (case str of
        None \<Rightarrow> Ret []
      | Some cs \<Rightarrow>
          if print_len cs 0 < length (print_chars cs) then Fault OutOfBounds
          else Ret (dquote # print_chars cs @ [dquote]))"


section \<open>The value dispatcher and the builders\<close>

text \<open>
  \<^verbatim>\<open>!strncmp(value, s2, n)\<close>: whether the first \<open>n\<close> characters agree, the
  comparison ending early at a difference or at a NUL.
\<close>

fun strncmp_is0 :: "string \<Rightarrow> nat \<Rightarrow> string \<Rightarrow> nat \<Rightarrow> bool outcome" where
  "strncmp_is0 inp i s2 0 = Ret True"
| "strncmp_is0 inp i s2 (Suc n) =
     obind (peek inp i) (\<lambda>c.
     if c \<noteq> (case s2 of [] \<Rightarrow> NUL | k # _ \<Rightarrow> k) then Ret False
     else if c = NUL then Ret True
     else strncmp_is0 inp (Suc i) (tl s2) n)"

text \<open>
  The callers write \<^verbatim>\<open>value=skip(parse_...(child, ...)); if (!value) return 0;\<close>.
  \<open>skip_parsed\<close> is the call of \<^verbatim>\<open>skip\<close> on what the inner call returned,
  the null pointer included, followed by that test.
\<close>

definition skip_parsed :: "string \<Rightarrow> ('a \<times> nat) outcome \<Rightarrow> ('a \<times> nat) outcome" where
  "skip_parsed inp r =
     (case r of
        Ret (x, p) \<Rightarrow> obind (skip inp (Some p)) (\<lambda>q. Ret (x, q))
      | Null e \<Rightarrow> obind (skip inp None) (\<lambda>q. Null e)
      | Fault f \<Rightarrow> Fault f)"

text \<open>
  What \<^verbatim>\<open>parse_object\<close> does to a member once its key is read: the hash of the
  key goes to \<^verbatim>\<open>nameHash\<close>, the key itself to \<^verbatim>\<open>nameString\<close> when
  \<^verbatim>\<open>WRITE_SUPPORT_ENABLED\<close> is defined, and \<^verbatim>\<open>valueString\<close> is cleared.
\<close>

definition name_member :: "'d env \<Rightarrow> 'd tree \<Rightarrow> 'd tree outcome" where
  "name_member env child =
     (case valueString (node child) of
        None \<Rightarrow> Fault NullDeref
      | Some k \<Rightarrow>
          Ret (upd (\<lambda>d. d\<lparr>nameHash := murmurString env k,
                             nameString := (if WRITE_SUPPORT_ENABLED env then Some k else nameString d),
                             valueString := None\<rparr>) child))"

text \<open>
  The recursive descent. The C functions call one another without bound; here every call
  and every round of a loop takes one unit of a fuel, and a computation that uses it up
  ends with \<open>OutOfFuel\<close>. \<open>parse_member\<close> is the text that
  \<^verbatim>\<open>parse_object\<close> has twice, for the first member and in its loop: a fresh
  node, the key, the separator, the value. \<open>array_loop\<close> and \<open>object_loop\<close> are
  the two \<^verbatim>\<open>while\<close> loops; \<open>cs\<close> is the chain built so far.
\<close>

function (sequential) parse_value ::
    "nat \<Rightarrow> 'd env \<Rightarrow> string \<Rightarrow> 'd tree \<Rightarrow> nat option \<Rightarrow> ('d tree \<times> nat) outcome"
  and parse_array ::
    "nat \<Rightarrow> 'd env \<Rightarrow> string \<Rightarrow> 'd tree \<Rightarrow> nat \<Rightarrow> ('d tree \<times> nat) outcome"
  and array_loop ::
    "nat \<Rightarrow> 'd env \<Rightarrow> string \<Rightarrow> 'd tree list \<Rightarrow> nat \<Rightarrow> ('d tree list \<times> nat) outcome"
  and parse_object ::
    "nat \<Rightarrow> 'd env \<Rightarrow> string \<Rightarrow> 'd tree \<Rightarrow> nat \<Rightarrow> ('d tree \<times> nat) outcome"
  and parse_member ::
    "nat \<Rightarrow> 'd env \<Rightarrow> string \<Rightarrow> nat \<Rightarrow> ('d tree \<times> nat) outcome"
  and object_loop ::
    "nat \<Rightarrow> 'd env \<Rightarrow> string \<Rightarrow> 'd tree list \<Rightarrow> nat \<Rightarrow> ('d tree list \<times> nat) outcome"
where
  "parse_value 0 env inp item value = Fault OutOfFuel"
| "parse_value (Suc n) env inp item None = Null None"
| "parse_value (Suc n) env inp item (Some v) =
     obind (strncmp_is0 inp v ''null'' 4) (\<lambda>is_null.
     if is_null then Ret (upd (\<lambda>d. d\<lparr>type := sJSON_NULL\<rparr>) item, v + 4)
     else
       obind (strncmp_is0 inp v ''false'' 5) (\<lambda>is_false.
       if is_false then Ret (upd (\<lambda>d. d\<lparr>type := sJSON_False\<rparr>) item, v + 5)
       else
         obind (strncmp_is0 inp v ''true'' 4) (\<lambda>is_true.
         if is_true then Ret (upd (\<lambda>d. d\<lparr>type := sJSON_True, valueInt := 1\<rparr>) item, v + 4)
         else
           obind (peek inp v) (\<lambda>c.
           if c = CHR ''-'' \<or> is_digit c then parse_number env inp item v
           else if c = CHR ''['' then parse_array n env inp item v
           else if c = CHR ''{'' then
             obind (skip inp (Some (Suc v))) (\<lambda>p. parse_object n env inp item p)
           else if c = dquote then parse_string inp item v
           else Null (Some v)))))"
| "parse_array 0 env inp item value = Fault OutOfFuel"
| "parse_array (Suc n) env inp item value =
     obind (peek inp value) (\<lambda>c.
     if c \<noteq> CHR ''['' then Null (Some value)
     else
       obind (skip inp (Some (Suc value))) (\<lambda>v.
       obind (peek inp v) (\<lambda>c1.
       if c1 = CHR '']'' then Ret (upd (\<lambda>d. d\<lparr>type := sJSON_Array\<rparr>) item, Suc v)
       else
         obind (skip inp (Some v)) (\<lambda>p.
         obind (skip_parsed inp (parse_value n env inp (sJSON_New_Item env) (Some p))) (\<lambda>(child, v1).
         obind (array_loop n env inp [child] v1) (\<lambda>(cs, v2).
         obind (peek inp v2) (\<lambda>c2.
         if c2 = CHR '']''
         then Ret (Tree ((node item)\<lparr>type := sJSON_Array\<rparr>) cs, Suc v2)
         else Null (Some v2))))))))"
| "array_loop 0 env inp cs value = Fault OutOfFuel"
| "array_loop (Suc n) env inp cs value =
     obind (peek inp value) (\<lambda>c.
     if c \<noteq> CHR '']'' then
       obind (skip inp (Some (if c = CHR '','' then Suc value else value))) (\<lambda>p.
       obind (skip_parsed inp (parse_value n env inp (sJSON_New_Item env) (Some p))) (\<lambda>(child, v).
       array_loop n env inp (cs @ [child]) v))
     else Ret (cs, value))"
| "parse_object 0 env inp item value = Fault OutOfFuel"
| "parse_object (Suc n) env inp item value =
     obind (peek inp value) (\<lambda>c.
     if c = CHR ''}'' then Ret (upd (\<lambda>d. d\<lparr>type := sJSON_Object\<rparr>) item, Suc value)
     else
       obind (parse_member n env inp value) (\<lambda>(child, v1).
       obind (object_loop n env inp [child] v1) (\<lambda>(cs, v2).
       obind (peek inp v2) (\<lambda>c2.
       if c2 = NUL then Ret (Tree ((node item)\<lparr>type := sJSON_Object\<rparr>) cs, v2)
       else if c2 = CHR ''}'' then Ret (Tree ((node item)\<lparr>type := sJSON_Object\<rparr>) cs, Suc v2)
       else Null (Some v2)))))"
| "parse_member 0 env inp start = Fault OutOfFuel"
| "parse_member (Suc n) env inp start =
     obind (skip inp (Some start)) (\<lambda>p.
     obind (skip_parsed inp (parse_string_or_identifier inp (sJSON_New_Item env) p)) (\<lambda>(key, value).
     obind (name_member env key) (\<lambda>child.
     obind (peek inp value) (\<lambda>c.
     if c \<noteq> CHR '':'' \<and> c \<noteq> CHR ''='' then Null (Some value)
     else
       obind (skip inp (Some (Suc value))) (\<lambda>p2.
       skip_parsed inp (parse_value n env inp child (Some p2)))))))"
| "object_loop 0 env inp cs value = Fault OutOfFuel"
| "object_loop (Suc n) env inp cs value =
     obind (peek inp value) (\<lambda>c.
     if c \<noteq> CHR ''}'' \<and> c \<noteq> NUL then
       obind (parse_member n env inp (if c = CHR '','' then Suc value else value)) (\<lambda>(child, v).
       object_loop n env inp (cs @ [child]) v)
     else Ret (cs, value))"
  by pat_completeness auto
termination
  by (relation "measure (\<lambda>x. case x of
         Inl (Inl (n, _)) \<Rightarrow> n
       | Inl (Inr (Inl (n, _))) \<Rightarrow> n
       | Inl (Inr (Inr (n, _))) \<Rightarrow> n
       | Inr (Inl (n, _)) \<Rightarrow> n
       | Inr (Inr (Inl (n, _))) \<Rightarrow> n
       | Inr (Inr (Inr (n, _))) \<Rightarrow> n)") simp_all

text \<open>
  \<^verbatim>\<open>sJSONparse\<close>. It clears the error pointer, so a null return carries the
  position that the failing function stored.
\<close>

definition sJSONparse :: "nat \<Rightarrow> 'd env \<Rightarrow> string \<Rightarrow> 'd tree outcome" where
  "sJSONparse n env inp =
     obind (skip inp (Some 0)) (\<lambda>value.
     obind (peek inp value) (\<lambda>c.
     if c = CHR ''{'' \<or> c = CHR ''['' then
       obind (skip inp (Some value)) (\<lambda>p.
       obind (parse_value n env inp (sJSON_New_Item env) (Some p)) (\<lambda>(t, q). Ret t))
     else
       obind (skip inp (Some value)) (\<lambda>p.
       obind (parse_object n env inp (sJSON_New_Item env) p) (\<lambda>(t, q). Ret t))))"

text \<open>\<^verbatim>\<open>sJSONgetErrorPtr\<close> after a call of \<^verbatim>\<open>sJSONparse\<close> that returned.\<close>

definition sJSONgetErrorPtr :: "'a outcome \<Rightarrow> nat option" where
  "sJSONgetErrorPtr r = (case r of Null e \<Rightarrow> e | _ \<Rightarrow> None)"


section \<open>Nodes in memory and the functions that relink them\<close>

text \<open>
  The functions that read and change a tree through its links work on nodes that the
  caller holds pointers to, and a node may be reached on several ways. For them the
  memory is explicit: a heap maps an address to the node stored there, and the three
  link fields of \<^verbatim>\<open>struct sJSON\<close> are addresses (\<open>None\<close> the null pointer;
  the field \<^verbatim>\<open>next\<close> is called \<open>nxt\<close> here).
\<close>

record 'd sJSON = "'d sJSON_data" +
  nxt :: "nat option"
  prev :: "nat option"
  child :: "nat option"

type_synonym 'd heap = "nat \<Rightarrow> 'd sJSON"

text \<open>
  \<^verbatim>\<open>sJSONgetArraySize\<close>: \<^verbatim>\<open>while(c) { i++; c=c->next; }\<close>. On a chain
  that runs into a cycle the loop does not end.
\<close>

partial_function (option) count_chain :: "'d heap \<Rightarrow> nat option \<Rightarrow> nat \<Rightarrow> nat option" where
  "count_chain h c i =
     (case c of None \<Rightarrow> Some i | Some a \<Rightarrow> count_chain h (nxt (h a)) (i + 1))"

definition sJSONgetArraySize :: "'d heap \<Rightarrow> nat \<Rightarrow> nat option" where
  "sJSONgetArraySize h array = count_chain h (child (h array)) 0"

text \<open>
  \<^verbatim>\<open>while (c && item>0) { item--; c=c->next; }\<close>, the loop of
  \<^verbatim>\<open>sJSONgetArrayItem\<close>, of \<^verbatim>\<open>sJSONdetachItemFromArray\<close> and of
  \<^verbatim>\<open>sJSONreplaceItemInArray\<close>. The index is an \<^verbatim>\<open>int\<close>.
\<close>

function walk :: "'d heap \<Rightarrow> nat option \<Rightarrow> int \<Rightarrow> nat option" where
  "walk h c item =
     (case c of
        None \<Rightarrow> None
      | Some a \<Rightarrow> if 0 < item then walk h (nxt (h a)) (item - 1) else c)"
  by pat_completeness auto
termination
  by (relation "measure (\<lambda>(h, c, item). nat item)") auto

declare walk.simps [simp del]

definition sJSONgetArrayItem :: "'d heap \<Rightarrow> nat \<Rightarrow> int \<Rightarrow> nat option" where
  "sJSONgetArrayItem h array item = walk h (child (h array)) item"

text \<open>
  \<^verbatim>\<open>sJSONgetObjectItem\<close>:
  \<^verbatim>\<open>while(c && (c->nameHash != stringHash)) c=c->next;\<close>
\<close>

partial_function (option) find_hash ::
  "'d heap \<Rightarrow> nat option \<Rightarrow> 32 word \<Rightarrow> nat option option" where
  "find_hash h c stringHash =
     (case c of
        None \<Rightarrow> Some None
      | Some a \<Rightarrow>
          if nameHash (h a) \<noteq> stringHash then find_hash h (nxt (h a)) stringHash
          else Some c)"

definition sJSONgetObjectItem :: "'d heap \<Rightarrow> nat \<Rightarrow> 32 word \<Rightarrow> nat option option" where
  "sJSONgetObjectItem h object stringHash = find_hash h (child (h object)) stringHash"

text \<open>\<^verbatim>\<open>suffix_object\<close>: \<^verbatim>\<open>prev->next=item; item->prev=prev;\<close>\<close>

definition suffix_object :: "'d heap \<Rightarrow> nat \<Rightarrow> nat \<Rightarrow> 'd heap" where
  "suffix_object h p item =
     (let h1 = h(p := (h p)\<lparr>nxt := Some item\<rparr>)
      in h1(item := (h1 item)\<lparr>prev := Some p\<rparr>))"

text \<open>
  \<^verbatim>\<open>sJSONaddItemToArray\<close>. \<^verbatim>\<open>while (c && c->next) c=c->next;\<close> looks for
  the last node of the chain, from a first node that is not null.
\<close>

partial_function (option) last_item :: "'d heap \<Rightarrow> nat \<Rightarrow> nat option" where
  "last_item h c = (case nxt (h c) of None \<Rightarrow> Some c | Some n \<Rightarrow> last_item h n)"

definition sJSONaddItemToArray :: "'d heap \<Rightarrow> nat \<Rightarrow> nat option \<Rightarrow> 'd heap option" where
  "sJSONaddItemToArray h array item =
     (case item of
        None \<Rightarrow> Some h
      | Some it \<Rightarrow>
          (case child (h array) of
             None \<Rightarrow> Some (h(array := (h array)\<lparr>child := Some it\<rparr>))
           | Some c \<Rightarrow> map_option (\<lambda>l. suffix_object h l it) (last_item h c)))"

text \<open>
  \<^verbatim>\<open>sJSONaddItemToObject\<close>: the name and its hash are stored in the item, then
  the item is added as to an array.
\<close>

definition sJSONaddItemToObject ::
  "'d env \<Rightarrow> 'd heap \<Rightarrow> nat \<Rightarrow> string \<Rightarrow> nat option \<Rightarrow> 'd heap option" where
  "sJSONaddItemToObject env h object string item =
     (case item of
        None \<Rightarrow> Some h
      | Some it \<Rightarrow>
          sJSONaddItemToArray
            (h(it := (h it)\<lparr>nameString :=
                               (if WRITE_SUPPORT_ENABLED env then Some string else nameString (h it)),
                             nameHash := murmurString env string\<rparr>))
            object item)"

text \<open>
  \<^verbatim>\<open>sJSONdetachItemFromArray\<close>. Every statement reads the memory as the
  statements before it left it.
\<close>

definition sJSONdetachItemFromArray :: "'d heap \<Rightarrow> nat \<Rightarrow> int \<Rightarrow> 'd heap \<times> nat option" where
  "sJSONdetachItemFromArray h array which =
     (case walk h (child (h array)) which of
        None \<Rightarrow> (h, None)
      | Some c \<Rightarrow>
          let h1 = (case prev (h c) of
                      None \<Rightarrow> h
                    | Some p \<Rightarrow> h(p := (h p)\<lparr>nxt := nxt (h c)\<rparr>));
              h2 = (case nxt (h1 c) of
                      None \<Rightarrow> h1
                    | Some n \<Rightarrow> h1(n := (h1 n)\<lparr>prev := prev (h1 c)\<rparr>));
              h3 = (if child (h2 array) = Some c
                    then h2(array := (h2 array)\<lparr>child := nxt (h2 c)\<rparr>) else h2)
          in (h3(c := (h3 c)\<lparr>prev := None, nxt := None\<rparr>), Some c))"

text \<open>
  \<^verbatim>\<open>sJSONdetachItemFromObject\<close>: the loop counts the nodes before the first one
  with the hash of the name, and that index goes to
  \<^verbatim>\<open>sJSONdetachItemFromArray\<close>.
\<close>

partial_function (option) find_index ::
  "'d heap \<Rightarrow> nat option \<Rightarrow> 32 word \<Rightarrow> int \<Rightarrow> (nat option \<times> int) option" where
  "find_index h c stringHash i =
     (case c of
        None \<Rightarrow> Some (None, i)
      | Some a \<Rightarrow>
          if nameHash (h a) \<noteq> stringHash then find_index h (nxt (h a)) stringHash (i + 1)
          else Some (c, i))"

definition sJSONdetachItemFromObject ::
  "'d env \<Rightarrow> 'd heap \<Rightarrow> nat \<Rightarrow> string \<Rightarrow> ('d heap \<times> nat option) option" where
  "sJSONdetachItemFromObject env h object string =
     (case find_index h (child (h object)) (murmurString env string) 0 of
        None \<Rightarrow> None
      | Some (None, i) \<Rightarrow> Some (h, None)
      | Some (Some c, i) \<Rightarrow> Some (sJSONdetachItemFromArray h object i))"

text \<open>
  The children of a node as the data model has them: the chain from
  \<^verbatim>\<open>child\<close> along \<^verbatim>\<open>next\<close> ends at the null pointer, the head has no
  previous node and every other node has its predecessor as \<^verbatim>\<open>prev\<close>.
  \<open>dseg h p c as e\<close> is a stretch of such a chain: it starts at \<open>c\<close>, whose
  previous node is \<open>p\<close>, runs through the addresses \<open>as\<close>, and the last
  \<^verbatim>\<open>next\<close> is \<open>e\<close>.
\<close>

fun dseg :: "'d heap \<Rightarrow> nat option \<Rightarrow> nat option \<Rightarrow> nat list \<Rightarrow> nat option \<Rightarrow> bool" where
  "dseg h p c [] e \<longleftrightarrow> c = e"
| "dseg h p c (a # as) e \<longleftrightarrow> c = Some a \<and> prev (h a) = p \<and> dseg h (Some a) (nxt (h a)) as e"

definition children :: "'d heap \<Rightarrow> nat \<Rightarrow> nat list \<Rightarrow> bool" where
  "children h a as \<longleftrightarrow> dseg h None (child (h a)) as None"

section \<open>An environment for running the model\<close>

text \<open>
  To evaluate the model on a concrete text the parameters need values. Here the
  arithmetic is the exact one of the rational numbers and the hash is a polynomial
  hash; the theorems below that hold for every environment do not depend on either.
  A number is printed in decimal digits, without a fraction when it is an integer and
  with six digits after the point otherwise.
\<close>

fun digits_of :: "nat \<Rightarrow> string" where
  "digits_of n =
     (if n < 10 then [char_of (48 + n)] else digits_of (n div 10) @ [char_of (48 + n mod 10)])"

declare digits_of.simps [simp del]

definition print_exact :: "rat \<Rightarrow> int \<Rightarrow> string" where
  "print_exact d i =
     (if d = of_int i then (if i < 0 then ''-'' else []) @ digits_of (nat \<bar>i\<bar>)
      else
        (let r = nat \<lfloor>\<bar>d\<bar> * 1000000 + 1 / 2\<rfloor> in
         (if d < 0 then ''-'' else []) @ digits_of (r div 1000000) @ ''.'' @
         map (\<lambda>k. char_of (48 + r div 10 ^ k mod 10)) [5, 4, 3, 2, 1, 0]))"

definition exact_env :: "rat env" where
  "exact_env =
     \<lparr>murmurString = (\<lambda>s. of_nat (foldl (\<lambda>v c. v * 31 + of_char c) 0 s)),
      dbl_of_int = of_int,
      dbl_add = (+), dbl_sub = (-), dbl_mul = (*),
      dbl_pow = (\<lambda>b e. b powi \<lfloor>e\<rfloor>),
      dbl_val = Some,
      print_number = print_exact,
      WRITE_SUPPORT_ENABLED = True\<rparr>"

definition zero_node :: "rat sJSON" where
  "zero_node =
     \<lparr>type = 0, valueString = None, valueInt = 0, valueDouble = 0, nameString = None,
      nameHash = 0, nxt = None, prev = None, child = None\<rparr>"


text \<open>
  An array node at address 0 with three number children at the addresses 1, 2 and 3.
\<close>

definition array3 :: "rat heap" where
  "array3 =
     (\<lambda>_. zero_node)
       (0 := zero_node\<lparr>type := sJSON_Array, child := Some 1\<rparr>,
        1 := zero_node\<lparr>type := sJSON_Number, valueInt := 10, valueDouble := 10, nxt := Some 2\<rparr>,
        2 := zero_node\<lparr>type := sJSON_Number, valueInt := 20, valueDouble := 20,
                         prev := Some 1, nxt := Some 3\<rparr>,
        3 := zero_node\<lparr>type := sJSON_Number, valueInt := 30, valueDouble := 30,
                         prev := Some 2\<rparr>)"

text \<open>
  The value fields of a node in memory, and the node before a stretch of a chain that
  follows the nodes \<open>xs\<close>.
\<close>

definition values_of :: "'d sJSON \<Rightarrow> 'd sJSON_data" where
  "values_of n =
     \<lparr>type = type n, valueString = valueString n, valueInt = valueInt n,
      valueDouble = valueDouble n, nameString = nameString n, nameHash = nameHash n\<rparr>"

definition lastp :: "nat option \<Rightarrow> nat list \<Rightarrow> nat option" where
  "lastp p xs = (if xs = [] then p else Some (last xs))"

text \<open>
  An object node at address 0 whose only member, at address 1, has the name
  \<^verbatim>\<open>a\<close>.
\<close>

definition dup_heap :: "rat heap" where
  "dup_heap =
     (\<lambda>_. zero_node)
       (0 := zero_node\<lparr>type := sJSON_Object, child := Some 1\<rparr>,
        1 := zero_node\<lparr>type := sJSON_True, valueInt := 1, nameString := Some ''a'',
                         nameHash := murmurString exact_env ''a''\<rparr>)"

section \<open>String literals as the specification describes them\<close>

text \<open>
  The following definitions are not taken from the code. They say in the words of the
  specification what a string literal consists of and what it decodes to, and the
  theorems on \<^verbatim>\<open>parse_string\<close> below compare the code with them.

  The UTF-8 encoding of a code point below 65536, in one to three bytes.
\<close>

definition spec_utf8 :: "nat \<Rightarrow> nat list" where
  "spec_utf8 cp =
     (if cp < 128 then [cp]
      else if cp < 2048 then [192 + cp div 64, 128 + cp mod 64]
      else [224 + cp div 4096, 128 + cp div 64 mod 64, 128 + cp mod 64])"

text \<open>
  The body of a literal is a sequence of pieces: a character other than the quote, the
  backslash and NUL; a backslash with a character after it; or \<^verbatim>\<open>\u\<close> with four
  hexadecimal digits. \<open>render\<close> is the text of a piece, \<open>spec_decoded\<close> what the
  specification says it stands for, and \<open>counted\<close> what the sizing pass of
  \<^verbatim>\<open>parse_string\<close> counts for it.
\<close>

datatype piece = Plain char | Escaped char | Unicode char char char char

fun render :: "piece \<Rightarrow> string" where
  "render (Plain c) = [c]"
| "render (Escaped e) = [bslash, e]"
| "render (Unicode a b c d) = [bslash, CHR ''u'', a, b, c, d]"

fun valid :: "piece \<Rightarrow> bool" where
  "valid (Plain c) \<longleftrightarrow> c \<noteq> dquote \<and> c \<noteq> bslash \<and> c \<noteq> NUL"
| "valid (Escaped e) \<longleftrightarrow> e \<noteq> NUL \<and> e \<noteq> CHR ''u''"
| "valid (Unicode a b c d) \<longleftrightarrow> is_hex a \<and> is_hex b \<and> is_hex c \<and> is_hex d"

definition hex4 :: "char \<Rightarrow> char \<Rightarrow> char \<Rightarrow> char \<Rightarrow> nat" where
  "hex4 a b c d = ((hex_val a * 16 + hex_val b) * 16 + hex_val c) * 16 + hex_val d"

fun spec_decoded :: "piece \<Rightarrow> string" where
  "spec_decoded (Plain c) = [c]"
| "spec_decoded (Escaped e) =
     [if e = CHR ''b'' then CHR 0x08 else if e = CHR ''f'' then CHR 0x0C
      else if e = CHR ''n'' then CHR 0x0A else if e = CHR ''r'' then CHR 0x0D
      else if e = CHR ''t'' then CHR 0x09 else e]"
| "spec_decoded (Unicode a b c d) = map char_of (spec_utf8 (hex4 a b c d))"

fun counted :: "piece \<Rightarrow> nat" where
  "counted (Plain c) = 1"
| "counted (Escaped e) = 1"
| "counted (Unicode a b c d) = 5"

text \<open>
  The piece that \<^verbatim>\<open>print_string_ptr\<close> writes for a character.
\<close>

definition piece_of :: "char \<Rightarrow> piece" where
  "piece_of c =
     (if (31::nat) < of_char c \<and> c \<noteq> dquote \<and> c \<noteq> bslash then Plain c
      else if c = bslash then Escaped bslash
      else if c = dquote then Escaped dquote
      else if c = CHR 0x08 then Escaped (CHR ''b'')
      else if c = CHR 0x0C then Escaped (CHR ''f'')
      else if c = CHR 0x0A then Escaped (CHR ''n'')
      else if c = CHR 0x0D then Escaped (CHR ''r'')
      else if c = CHR 0x09 then Escaped (CHR ''t'')
      else Unicode (hex_digit (of_char c div 4096)) (hex_digit (of_char c div 256))
             (hex_digit (of_char c div 16)) (hex_digit (of_char c)))"


section \<open>Numeric literals as the specification describes them\<close>

text \<open>
  The following definitions are not taken from the code. They describe a numeric literal
  by its parts, the text it is written as and the number it denotes, and the theorems on
  \<^verbatim>\<open>parse_number\<close> below compare the code with them.

  The character a text starts with; the terminating NUL when the text is empty.
\<close>

definition first :: "string \<Rightarrow> char" where
  "first s = (case s of [] \<Rightarrow> NUL | c # _ \<Rightarrow> c)"

text \<open>
  The scale after \<open>k\<close> fractional digits: one subtracted from zero \<open>k\<close> times.
\<close>

definition scale_of :: "'d env \<Rightarrow> nat \<Rightarrow> 'd" where
  "scale_of env k = ((\<lambda>s. dbl_sub env s (dbl_of_int env 1)) ^^ k) (dbl_of_int env 0)"

text \<open>The integer a sequence of decimal digits denotes, continuing from \<open>v\<close>.\<close>

definition digits_value :: "int \<Rightarrow> string \<Rightarrow> int" where
  "digits_value v ds = foldl (\<lambda>v c. v * 10 + digit_val c) v ds"

text \<open>
  A literal: an optional minus sign, an optional single leading zero, the digits of the
  integer part, the digits after the decimal point (none: no decimal point), and an
  optional exponent, which is the letter, the sign as it is written, and the digits.
\<close>

datatype numlit =
  NumLit (negative: bool) (leading_zero: bool) (int_digits: string) (frac_digits: string)
    (exp_text: "(char \<times> string \<times> string) option")

definition render_sign :: "numlit \<Rightarrow> string" where
  "render_sign l = (if negative l then ''-'' else [])"

definition render_zero :: "numlit \<Rightarrow> string" where
  "render_zero l = (if leading_zero l then ''0'' else [])"

definition render_frac :: "numlit \<Rightarrow> string" where
  "render_frac l = (if frac_digits l = [] then [] else CHR ''.'' # frac_digits l)"

definition render_exp :: "numlit \<Rightarrow> string" where
  "render_exp l = (case exp_text l of None \<Rightarrow> [] | Some (e, sg, ds) \<Rightarrow> e # sg @ ds)"

definition render_num :: "numlit \<Rightarrow> string" where
  "render_num l = render_sign l @ render_zero l @ int_digits l @ render_frac l @ render_exp l"

text \<open>
  The parts are what they are called: the integer part is digits that do not start with
  a zero, the fractional part is digits, the exponent letter is \<^verbatim>\<open>e\<close> or
  \<^verbatim>\<open>E\<close>, its sign is absent, \<^verbatim>\<open>+\<close> or \<^verbatim>\<open>-\<close>, and its digits
  denote a value that an \<^verbatim>\<open>int\<close> holds.
\<close>

definition valid_num :: "numlit \<Rightarrow> bool" where
  "valid_num l \<longleftrightarrow>
     (int_digits l = [] \<or> hd (int_digits l) \<noteq> CHR ''0'') \<and>
     list_all is_digit (int_digits l) \<and>
     list_all is_digit (frac_digits l) \<and>
     (case exp_text l of
        None \<Rightarrow> True
      | Some (e, sg, ds) \<Rightarrow>
          (e = CHR ''e'' \<or> e = CHR ''E'') \<and> (sg = [] \<or> sg = ''+'' \<or> sg = ''-'') \<and>
          list_all is_digit ds \<and> digits_value 0 ds \<le> INT_MAX)"

text \<open>The characters a numeric literal can continue with.\<close>

definition number_char :: "char \<Rightarrow> bool" where
  "number_char c \<longleftrightarrow>
     is_digit c \<or> c = CHR ''.'' \<or> c = CHR ''e'' \<or> c = CHR ''E'' \<or> c = CHR ''+'' \<or> c = CHR ''-''"

text \<open>
  The signed exponent, and \<open>sign * mantissa * 10^(scale + exponent)\<close> in the
  arithmetic of the environment; the mantissa is accumulated over the digits of the
  integer part and of the fractional part.
\<close>

definition spec_exponent :: "numlit \<Rightarrow> int" where
  "spec_exponent l =
     (case exp_text l of
        None \<Rightarrow> 0
      | Some (e, sg, ds) \<Rightarrow> digits_value 0 ds * (if sg = ''-'' then - 1 else 1))"

definition spec_mantissa :: "'d env \<Rightarrow> string \<Rightarrow> 'd" where
  "spec_mantissa env ds =
     foldl (\<lambda>m c. dbl_add env (dbl_mul env m (dbl_of_int env 10)) (dbl_of_int env (digit_val c)))
       (dbl_of_int env 0) ds"

definition spec_number :: "'d env \<Rightarrow> numlit \<Rightarrow> 'd" where
  "spec_number env l =
     dbl_mul env
       (dbl_mul env (dbl_of_int env (if negative l then - 1 else 1))
          (spec_mantissa env (int_digits l @ frac_digits l)))
       (dbl_pow env (dbl_of_int env 10)
          (dbl_add env (scale_of env (length (frac_digits l))) (dbl_of_int env (spec_exponent l))))"

text \<open>The literal \<^verbatim>\<open>-12.5e-1\<close>.\<close>

definition lit_small :: numlit where
  "lit_small = NumLit True False ''12'' ''5'' (Some (CHR ''e'', ''-'', ''1''))"


section \<open>The skipper: where it stops\<close>

lemma peek_Ret_le: "peek inp i = Ret c \<Longrightarrow> i \<le> length inp"
  by (auto simp: peek_def split: if_splits)

text \<open>
  Whenever the skipper returns a cursor, the cursor has not moved back and stands inside
  the text or on its terminating NUL.
\<close>

lemma skip_loop_within: "skip_loop inp i = Ret p \<Longrightarrow> i \<le> p \<and> p \<le> length inp"
proof (induction inp i rule: skip_loop.induct)
  case (1 t i)
  from "1.prems" obtain j where j: "skip_white t i = Ret j"
    by (subst (asm) skip_loop.simps) (auto split: outcome.splits)
  then have ij: "i \<le> j" by (rule skip_white_ge)
  from "1.prems" j obtain c where c: "peek t j = Ret c"
    by (subst (asm) skip_loop.simps) (auto split: outcome.splits)
  then have jl: "j \<le> length t" by (rule peek_Ret_le)
  show ?case
  proof (cases "c \<noteq> NUL \<and> c = CHR ''/''")
    case False
    with "1.prems" j c have "p = j"
      by (subst (asm) skip_loop.simps) (auto split: outcome.splits)
    with ij jl show ?thesis by simp
  next
    case slash: True
    from "1.prems" j c slash obtain d where d: "peek t (Suc j) = Ret d"
      by (subst (asm) skip_loop.simps) (auto split: outcome.splits)
    consider (line) "d \<noteq> NUL \<and> d = CHR ''/''"
      | (block) "\<not> (d \<noteq> NUL \<and> d = CHR ''/'')" "d \<noteq> NUL \<and> d = CHR ''*''"
      | (none) "\<not> (d \<noteq> NUL \<and> d = CHR ''/'')" "\<not> (d \<noteq> NUL \<and> d = CHR ''*'')"
      by blast
    then show ?thesis
    proof cases
      case line
      from "1.prems" j c slash d line
      obtain k where k: "skip_line t j = Ret k" "skip_loop t k = Ret p"
        by (subst (asm) skip_loop.simps) (auto split: outcome.splits)
      from k(1) have "j \<le> k" by (rule skip_line_ge)
      moreover from "1.IH"(1) [OF j c slash d line k(1) k(2)]
      have "k \<le> p \<and> p \<le> length t" .
      ultimately show ?thesis using ij by simp
    next
      case block
      from "1.prems" j c slash d block
      obtain k where k: "skip_block t j = Ret k" "skip_loop t k = Ret p"
        by (subst (asm) skip_loop.simps) (auto split: outcome.splits)
      from k(1) have "j < k" by (rule skip_block_gt)
      moreover from "1.IH"(2) [OF j c slash d block k(1) k(2)]
      have "k \<le> p \<and> p \<le> length t" .
      ultimately show ?thesis using ij by simp
    next
      case none
      with "1.prems" j c slash d have "p = j"
        by (subst (asm) skip_loop.simps) (auto split: outcome.splits)
      with ij jl show ?thesis by simp
    qed
  qed
qed

text \<open>
  Claim C9 says that on every NUL-terminated text, from every position in it, the
  skipper ends with a cursor that lies in the text, at most on the terminating NUL.
  On the text \<^verbatim>\<open>/*\<close> it does not: the search for the closing star stops on the
  star that opens the comment, \<^verbatim>\<open>*(in+1)\<close> is the terminating NUL, so
  \<^verbatim>\<open>in += 2\<close> puts the cursor one place behind the NUL, and the next round of the
  loop reads there.
\<close>

theorem skip_block_comment_unterminated: "skip ''/*'' (Some 0) = Fault OutOfBounds"
  by (simp add: skip_loop.simps skip_white.simps skip_block.simps find_star.simps
        peek_def NUL_def)

section \<open>Failing parses\<close>

text \<open>
  In the text \<^verbatim>\<open>{"k": }\<close> the value of the member is missing. The dispatcher,
  called on the closing brace at index 6, stores that position in the error pointer and
  returns the null pointer.
\<close>

lemma missing_value_dispatch:
  "parse_value (Suc n) env (''{'' @ [dquote] @ ''k'' @ [dquote] @ '': }'') item (Some 6) =
     Null (Some 6)"
  by (simp add: peek_def NUL_def dquote_def is_digit_def eval_nat_numeral)

text \<open>
  Claim C5 says that a failing parse returns the null value with the error pointer on
  the place where parsing stopped, and that for \<^verbatim>\<open>{"k": }\<close> this place is the
  closing brace. \<^verbatim>\<open>parse_object\<close> however hands the null pointer it gets from
  the dispatcher to \<^verbatim>\<open>skip\<close>, which dereferences it: the call of
  \<^verbatim>\<open>sJSONparse\<close> does not return, whatever the environment and however much
  fuel beyond the four nested calls the text needs.
\<close>

theorem missing_value_null_dereference:
  "sJSONparse (Suc (Suc (Suc (Suc n)))) env (''{'' @ [dquote] @ ''k'' @ [dquote] @ '': }'') =
     Fault NullDeref"
  by (simp add: sJSONparse_def skip_loop.simps skip_white.simps peek_def NUL_def dquote_def
        bslash_def parse_string_or_identifier_def parse_string_def measure_string.simps
        copy_string.simps skip_parsed_def name_member_def upd_def sJSON_New_Item_def
        is_digit_def eval_nat_numeral)

text \<open>
  A failure that \<^verbatim>\<open>parse_object\<close> detects itself at the top level does come
  back as the claim says: in \<^verbatim>\<open>a b\<close> the separator after the key is missing,
  and the error pointer is on the \<^verbatim>\<open>b\<close>.
\<close>

lemma missing_separator_returns_null:
  "sJSONparse (Suc (Suc n)) env ''a b'' = Null (Some 2)"
  by (simp add: sJSONparse_def skip_loop.simps skip_white.simps peek_def NUL_def dquote_def
        parse_string_or_identifier_def ident_copy.simps is_ident_start_def is_ident_char_def
        is_digit_def skip_parsed_def name_member_def upd_def sJSON_New_Item_def eval_nat_numeral)


section \<open>The value dispatcher\<close>

text \<open>
  The model of \<^verbatim>\<open>strncmp\<close> compares character by character. For a keyword
  without NUL and a cursor in the text, the result is zero exactly when the text has
  the keyword at the cursor.
\<close>

lemma strncmp_is0_prefix:
  "v \<le> length inp \<Longrightarrow> NUL \<notin> set kw \<Longrightarrow> n \<le> length kw \<Longrightarrow>
     strncmp_is0 inp v kw n = Ret (take n (drop v inp) = take n kw)"
proof (induction n arbitrary: v kw)
  case 0
  then show ?case by simp
next
  case (Suc n)
  then obtain k ks where kw: "kw = k # ks" "k \<noteq> NUL" "NUL \<notin> set ks" "n \<le> length ks"
    by (cases kw) auto
  show ?case
  proof (cases "v < length inp")
    case True
    then have d: "drop v inp = inp ! v # drop (Suc v) inp"
      by (simp add: Cons_nth_drop_Suc)
    from True Suc.IH [of "Suc v" ks] kw show ?thesis
      by (simp add: peek_def d)
  next
    case False
    with Suc.prems kw show ?thesis
      by (simp add: peek_def)
  qed
qed

text \<open>
  Claim C4: at a cursor \<open>v\<close> in the text the dispatcher takes, in this order, the
  keyword \<^verbatim>\<open>null\<close>, \<^verbatim>\<open>false\<close> or \<^verbatim>\<open>true\<close> if the text has it at
  the cursor (whatever follows the keyword; the cursor moves past the keyword), a
  number if the next character is \<^verbatim>\<open>-\<close> or a digit, an array on
  \<^verbatim>\<open>[\<close>, an object on \<^verbatim>\<open>{\<close> (from the first character after the
  brace that is not skipped), a string on a double quote; on any other character, the
  terminating NUL included, it returns the null pointer with the error pointer on the
  cursor.
\<close>

theorem parse_value_dispatch:
  assumes "v \<le> length inp"
  shows "parse_value (Suc n) env inp item (Some v) =
     (if take 4 (drop v inp) = ''null''
      then Ret (upd (\<lambda>d. d\<lparr>type := sJSON_NULL\<rparr>) item, v + 4)
      else if take 5 (drop v inp) = ''false''
      then Ret (upd (\<lambda>d. d\<lparr>type := sJSON_False\<rparr>) item, v + 5)
      else if take 4 (drop v inp) = ''true''
      then Ret (upd (\<lambda>d. d\<lparr>type := sJSON_True, valueInt := 1\<rparr>) item, v + 4)
      else if v < length inp \<and> (inp ! v = CHR ''-'' \<or> is_digit (inp ! v))
      then parse_number env inp item v
      else if v < length inp \<and> inp ! v = CHR ''[''
      then parse_array n env inp item v
      else if v < length inp \<and> inp ! v = CHR ''{''
      then obind (skip inp (Some (Suc v))) (parse_object n env inp item)
      else if v < length inp \<and> inp ! v = dquote
      then parse_string inp item v
      else Null (Some v))"
proof -
  have kw: "strncmp_is0 inp v ''null'' 4 = Ret (take 4 (drop v inp) = ''null'')"
    "strncmp_is0 inp v ''false'' 5 = Ret (take 5 (drop v inp) = ''false'')"
    "strncmp_is0 inp v ''true'' 4 = Ret (take 4 (drop v inp) = ''true'')"
    using assms by (simp_all add: strncmp_is0_prefix NUL_def)
  show ?thesis
  proof (cases "v < length inp")
    case True
    then show ?thesis
      by (simp add: kw peek_def)
  next
    case False
    with assms have p: "peek inp v = Ret NUL"
      by (simp add: peek_def)
    from False show ?thesis
      by (simp add: kw p NUL_def is_digit_def dquote_def)
  qed
qed

text \<open>
  The text \<^verbatim>\<open>nullx\<close> is taken as the keyword \<^verbatim>\<open>null\<close>, the cursor
  left on the \<^verbatim>\<open>x\<close>.
\<close>

theorem parse_value_dispatch_witness:
  "(0::nat) \<le> length ''nullx'' \<and>
   parse_value (Suc 0) exact_env ''nullx'' (sJSON_New_Item exact_env) (Some 0) =
     Ret (upd (\<lambda>d. d\<lparr>type := sJSON_NULL\<rparr>) (sJSON_New_Item exact_env), 4)"
  using parse_value_dispatch [of 0 "''nullx''" 0 exact_env "sJSON_New_Item exact_env"]
  by simp

section \<open>Reading an array by index\<close>

lemma walk_nonpos: "item \<le> 0 \<Longrightarrow> walk h c item = c"
  by (subst walk.simps) (simp split: option.splits)

text \<open>
  When the counting loop ends, it has counted up from \<open>k\<close> to \<open>n\<close>, it counted
  nothing exactly when the chain is empty, and the walk over the same chain runs off
  its end for every index from \<open>n - k\<close> on.
\<close>

lemma count_chain_walk:
  "count_chain h c k = Some n \<Longrightarrow>
     k \<le> n \<and> (c = None \<longleftrightarrow> n = k) \<and> (\<forall>i. int n - int k \<le> i \<longrightarrow> walk h c i = None)"
proof (induction h c k n rule: count_chain.raw_induct [rotated 1, consumes 1, case_names step])
  case (step count h c k n)
  show ?case
  proof (cases c)
    case None
    with step(2) show ?thesis by (simp add: walk.simps)
  next
    case (Some a)
    with step(2) have "count h (nxt (h a)) (k + 1) = Some n" by simp
    from step(1) [OF this]
    have *: "k + 1 \<le> n" "\<forall>i. int n - int (k + 1) \<le> i \<longrightarrow> walk h (nxt (h a)) i = None"
      by simp_all
    have "walk h (Some a) i = None" if "int n - int k \<le> i" for i
    proof -
      from that * have "0 < i" "int n - int (k + 1) \<le> i - 1" by simp_all
      with *(2) show ?thesis by (subst walk.simps) simp
    qed
    with * Some show ?thesis by simp
  qed
qed

text \<open>
  Claim C10: for an index \<open>i \<le> 0\<close>, negative ones included,
  \<^verbatim>\<open>sJSONgetArrayItem\<close> returns the first child, which is null only when the
  array is empty (its size is 0); for an index from the size of the array on it returns
  null.
\<close>

theorem getArrayItem_outside:
  "(i \<le> 0 \<longrightarrow> sJSONgetArrayItem h a i = child (h a)) \<and>
   (sJSONgetArraySize h a = Some n \<longrightarrow>
      (child (h a) = None \<longleftrightarrow> n = 0) \<and> (int n \<le> i \<longrightarrow> sJSONgetArrayItem h a i = None))"
  using count_chain_walk [of h "child (h a)" 0 n]
  by (auto simp: sJSONgetArrayItem_def sJSONgetArraySize_def walk_nonpos)

lemma array3_size: "sJSONgetArraySize array3 0 = Some 3"
  by (simp add: sJSONgetArraySize_def array3_def count_chain.simps zero_node_def)

theorem getArrayItem_outside_witness:
  "sJSONgetArrayItem array3 0 (- 1) = Some 1 \<and> sJSONgetArraySize array3 0 = Some 3 \<and>
   sJSONgetArrayItem array3 0 3 = None"
  using getArrayItem_outside [of "- 1" array3 0 3] getArrayItem_outside [of 3 array3 0 3]
    array3_size
  by (simp add: array3_def zero_node_def)


section \<open>Chains in memory\<close>

lemma values_of_links [simp]:
  "values_of (n\<lparr>nxt := v\<rparr>) = values_of n"
  "values_of (n\<lparr>prev := v\<rparr>) = values_of n"
  "values_of (n\<lparr>child := v\<rparr>) = values_of n"
  by (simp_all add: values_of_def)

lemma dseg_append:
  "dseg h p c (xs @ ys) e \<longleftrightarrow> (\<exists>m. dseg h p c xs m \<and> dseg h (lastp p xs) m ys e)"
  by (induction xs arbitrary: p c) (auto simp: lastp_def)

lemma dseg_unique: "dseg h p c as None \<Longrightarrow> dseg h q c bs None \<Longrightarrow> as = bs"
proof (induction as arbitrary: p q c bs)
  case Nil
  then show ?case by (cases bs) auto
next
  case (Cons a as)
  then show ?case by (cases bs) auto
qed

lemma dseg_head_fresh:
  assumes "dseg h p (nxt (h a)) as None"
  shows "a \<notin> set as"
proof
  assume "a \<in> set as"
  then obtain us vs where as: "as = us @ a # vs"
    by (auto simp: in_set_conv_decomp)
  with assms obtain q where "dseg h q (nxt (h a)) vs None"
    by (auto simp: dseg_append)
  with assms have "as = vs"
    by (rule dseg_unique)
  with as show False by simp
qed

lemma dseg_distinct: "dseg h p c as None \<Longrightarrow> distinct as"
  by (induction as arbitrary: p c) (auto dest: dseg_head_fresh)

lemma dseg_walk:
  "dseg h p c as None \<Longrightarrow> 0 \<le> i \<Longrightarrow> nat i < length as \<Longrightarrow> walk h c i = Some (as ! nat i)"
proof (induction as arbitrary: p c i)
  case Nil
  then show ?case by simp
next
  case (Cons a as)
  show ?case
  proof (cases "0 < i")
    case True
    with Cons.prems have "nat (i - 1) < length as" "0 \<le> i - 1" "nat i = Suc (nat (i - 1))"
      by auto
    with Cons.IH [of "Some a" "nxt (h a)" "i - 1"] Cons.prems True show ?thesis
      by (subst walk.simps) auto
  next
    case False
    with Cons.prems show ?thesis
      by (subst walk.simps) auto
  qed
qed

lemma dseg_count: "dseg h p c as None \<Longrightarrow> count_chain h c k = Some (k + length as)"
  by (induction as arbitrary: p c k) (auto simp: count_chain.simps)

lemma dseg_relink:
  assumes "dseg h p c as e" "distinct as"
    and "\<forall>x\<in>set as. (as \<noteq> [] \<and> x = last as \<or> nxt (h' x) = nxt (h x)) \<and>
                     (as \<noteq> [] \<and> x = hd as \<or> prev (h' x) = prev (h x))"
    and "as \<noteq> [] \<longrightarrow> nxt (h' (last as)) = e' \<and> prev (h' (hd as)) = p'"
    and "as = [] \<longrightarrow> e' = c"
  shows "dseg h' p' c as e'"
  using assms
proof (induction as arbitrary: p p' c)
  case Nil
  then show ?case by simp
next
  case (Cons a as)
  show ?case
  proof (cases as)
    case Nil
    with Cons.prems show ?thesis by auto
  next
    case (Cons b bs)
    with Cons.prems have n: "nxt (h' a) = nxt (h a)" and c: "c = Some a"
      by auto
    have "dseg h' (Some a) (nxt (h a)) as e'"
    proof (rule Cons.IH)
      show "dseg h (Some a) (nxt (h a)) as e" "distinct as"
        using Cons.prems by auto
      show "\<forall>x\<in>set as. (as \<noteq> [] \<and> x = last as \<or> nxt (h' x) = nxt (h x)) \<and>
                     (as \<noteq> [] \<and> x = hd as \<or> prev (h' x) = prev (h x))"
        using Cons.prems(3) Cons.prems(2) Cons by auto
      show "as \<noteq> [] \<longrightarrow> nxt (h' (last as)) = e' \<and> prev (h' (hd as)) = Some a"
        using Cons.prems Cons by auto
      show "as = [] \<longrightarrow> e' = nxt (h a)"
        using Cons by simp
    qed
    with n c Cons.prems(4) show ?thesis by simp
  qed
qed


text \<open>
  What \<^verbatim>\<open>sJSONdetachItemFromArray\<close> does to a well-formed chain of children, at
  an index inside it.
\<close>

lemma detach_unlinks:
  assumes ch: "children h a as" and i: "0 \<le> i" "nat i < length as"
  shows "case sJSONdetachItemFromArray h a i of
           (h', r) \<Rightarrow>
             r = Some (as ! nat i) \<and>
             children h' a (take (nat i) as @ drop (Suc (nat i)) as) \<and>
             sJSONgetArraySize h' a = Some (length as - 1) \<and>
             nxt (h' (as ! nat i)) = None \<and> prev (h' (as ! nat i)) = None \<and>
             (\<forall>x. values_of (h' x) = values_of (h x)) \<and>
             (\<forall>x. x \<noteq> a \<longrightarrow> child (h' x) = child (h x)) \<and>
             (\<forall>x. x \<notin> set as \<longrightarrow> nxt (h' x) = nxt (h x) \<and> prev (h' x) = prev (h x))"
proof -
  define xs c ys where "xs = take (nat i) as" and "c = as ! nat i" and "ys = drop (Suc (nat i)) as"
  from i have as: "as = xs @ c # ys"
    by (simp add: xs_def c_def ys_def id_take_nth_drop)
  from ch have whole: "dseg h None (child (h a)) as None"
    by (simp add: children_def)
  then have "distinct as"
    by (rule dseg_distinct)
  with as have dist: "distinct xs" "distinct ys" "c \<notin> set xs" "c \<notin> set ys" "set xs \<inter> set ys = {}"
    by auto
  from whole as have front: "dseg h None (child (h a)) xs (Some c)"
    and pc: "prev (h c) = lastp None xs"
    and rear: "dseg h (Some c) (nxt (h c)) ys None"
    by (auto simp: dseg_append)
  from rear have nc: "nxt (h c) = (case ys of [] \<Rightarrow> None | y # _ \<Rightarrow> Some y)"
    by (cases ys) auto
  from front dist have first: "child (h a) = Some c \<longleftrightarrow> xs = []"
    by (cases xs) auto
  from whole i have w: "walk h (child (h a)) i = Some c"
    unfolding c_def by (rule dseg_walk)
  define h1 where "h1 = (case prev (h c) of None \<Rightarrow> h | Some p \<Rightarrow> h(p := (h p)\<lparr>nxt := nxt (h c)\<rparr>))"
  define h2 where "h2 = (case nxt (h1 c) of None \<Rightarrow> h1 | Some n \<Rightarrow> h1(n := (h1 n)\<lparr>prev := prev (h1 c)\<rparr>))"
  define h3 where "h3 = (if child (h2 a) = Some c then h2(a := (h2 a)\<lparr>child := nxt (h2 c)\<rparr>) else h2)"
  define h4 where "h4 = h3(c := (h3 c)\<lparr>prev := None, nxt := None\<rparr>)"
  have res: "sJSONdetachItemFromArray h a i = (h4, Some c)"
    by (simp only: sJSONdetachItemFromArray_def w Let_def h1_def h2_def h3_def h4_def
          option.case)
  have lx: "xs \<noteq> [] \<Longrightarrow> last xs \<noteq> c" and hy: "ys \<noteq> [] \<Longrightarrow> hd ys \<noteq> c"
    and lh: "xs \<noteq> [] \<Longrightarrow> ys \<noteq> [] \<Longrightarrow> last xs \<noteq> hd ys"
    using dist by (auto dest: last_in_set hd_in_set)
  have dj: "x \<in> set xs \<Longrightarrow> ys \<noteq> [] \<Longrightarrow> x \<noteq> hd ys"
    "x \<in> set ys \<Longrightarrow> xs \<noteq> [] \<Longrightarrow> x \<noteq> last xs"
    "x \<in> set xs \<Longrightarrow> x \<noteq> c" "x \<in> set ys \<Longrightarrow> x \<noteq> c" for x
    using dist by (auto dest: last_in_set hd_in_set)
  have f1: "nxt (h1 x) = (if xs \<noteq> [] \<and> x = last xs then nxt (h c) else nxt (h x))"
    "prev (h1 x) = prev (h x)" "child (h1 x) = child (h x)" "values_of (h1 x) = values_of (h x)" for x
    by (auto simp: h1_def pc lastp_def)
  have f2: "nxt (h2 x) = nxt (h1 x)"
    "prev (h2 x) = (if ys \<noteq> [] \<and> x = hd ys then lastp None xs else prev (h x))"
    "child (h2 x) = child (h x)" "values_of (h2 x) = values_of (h x)" for x
    using lx by (auto simp: h2_def f1 nc pc split: list.splits)
  have f3: "nxt (h3 x) = nxt (h1 x)" "prev (h3 x) = prev (h2 x)"
    "child (h3 x) = (if x = a \<and> xs = [] then nxt (h c) else child (h x))"
    "values_of (h3 x) = values_of (h x)" for x
    using lx by (auto simp: h3_def f2 f1 first)
  have f4: "nxt (h4 x) = (if x = c then None else nxt (h1 x))"
    "prev (h4 x) = (if x = c then None else prev (h2 x))"
    "child (h4 x) = child (h3 x)" "values_of (h4 x) = values_of (h x)" for x
    using f3 [of x] by (auto simp: h4_def)
  have front': "dseg h4 None (child (h4 a)) xs (nxt (h c))"
  proof (cases "xs = []")
    case True
    then show ?thesis by (simp add: f4 f3)
  next
    case False
    with front have "child (h4 a) = child (h a)"
      by (simp add: f4 f3)
    moreover from front dist(1) have "dseg h4 None (child (h a)) xs (nxt (h c))"
    proof (rule dseg_relink)
      show "\<forall>x\<in>set xs. (xs \<noteq> [] \<and> x = last xs \<or> nxt (h4 x) = nxt (h x)) \<and>
                     (xs \<noteq> [] \<and> x = hd xs \<or> prev (h4 x) = prev (h x))"
        using dj by (auto simp: f4 f2 f1)
      show "xs \<noteq> [] \<longrightarrow> nxt (h4 (last xs)) = nxt (h c) \<and> prev (h4 (hd xs)) = None"
        using dj [of "hd xs"] lx front by (cases xs) (auto simp: f4 f2 f1)
      show "xs = [] \<longrightarrow> nxt (h c) = child (h a)"
        using False by simp
    qed
    ultimately show ?thesis by simp
  qed
  from rear dist(2) have rear': "dseg h4 (lastp None xs) (nxt (h c)) ys None"
  proof (rule dseg_relink)
    show "\<forall>x\<in>set ys. (ys \<noteq> [] \<and> x = last ys \<or> nxt (h4 x) = nxt (h x)) \<and>
                   (ys \<noteq> [] \<and> x = hd ys \<or> prev (h4 x) = prev (h x))"
      using dj by (auto simp: f4 f2 f1)
    show "ys \<noteq> [] \<longrightarrow> nxt (h4 (last ys)) = None \<and> prev (h4 (hd ys)) = lastp None xs"
    proof
      assume ne: "ys \<noteq> []"
      then have "ys = butlast ys @ [last ys]" by simp
      with rear have "dseg h (Some c) (nxt (h c)) (butlast ys @ [last ys]) None" by simp
      then have "nxt (h (last ys)) = None"
        by (auto simp: dseg_append)
      with ne dj [of "last ys"] hy
      show "nxt (h4 (last ys)) = None \<and> prev (h4 (hd ys)) = lastp None xs"
        by (auto simp: f4 f2 f1)
    qed
    show "ys = [] \<longrightarrow> None = nxt (h c)"
      by (simp add: nc)
  qed
  from front' rear' have ch': "children h4 a (xs @ ys)"
    by (auto simp: children_def dseg_append)
  then have "sJSONgetArraySize h4 a = Some (length (xs @ ys))"
    using dseg_count [of h4 None "child (h4 a)" "xs @ ys" 0]
    by (simp add: children_def sJSONgetArraySize_def)
  moreover have "length (xs @ ys) = length as - 1"
    by (simp add: as)
  moreover have "\<forall>x. x \<notin> set as \<longrightarrow> nxt (h4 x) = nxt (h x) \<and> prev (h4 x) = prev (h x)"
    by (auto simp: f4 f2 f1 as dest: last_in_set hd_in_set)
  ultimately show ?thesis
    using ch' by (simp add: res f4 f3 xs_def [symmetric] c_def [symmetric] ys_def [symmetric])
qed


text \<open>
  Claim C3: for an array \<open>a\<close> whose children are the chain \<open>as\<close> and an index
  \<open>i\<close> with at least \<open>i + 1\<close> children, \<^verbatim>\<open>sJSONdetachItemFromArray\<close>
  returns the child at that index; afterwards the children of \<open>a\<close> are the other
  nodes in their old order, again a well-formed chain (the first child of \<open>a\<close>,
  every \<^verbatim>\<open>next\<close> and every \<^verbatim>\<open>prev\<close> fit), and the size is one less;
  the detached node has no neighbours left; no node has lost or changed a value, no node
  but \<open>a\<close> a first child, and no node outside the chain a link.
\<close>

theorem detachItemFromArray_unlinks:
  assumes "children h a as" and "0 \<le> i" and "nat i < length as"
  shows "case sJSONdetachItemFromArray h a i of
           (h', r) \<Rightarrow>
             r = Some (as ! nat i) \<and>
             children h' a (take (nat i) as @ drop (Suc (nat i)) as) \<and>
             sJSONgetArraySize h' a = Some (length as - 1) \<and>
             nxt (h' (as ! nat i)) = None \<and> prev (h' (as ! nat i)) = None \<and>
             (\<forall>x. values_of (h' x) = values_of (h x)) \<and>
             (\<forall>x. x \<noteq> a \<longrightarrow> child (h' x) = child (h x)) \<and>
             (\<forall>x. x \<notin> set as \<longrightarrow> nxt (h' x) = nxt (h x) \<and> prev (h' x) = prev (h x))"
  using assms by (rule detach_unlinks)

lemma array3_children: "children array3 0 [1, 2, 3]"
  by (simp add: children_def array3_def zero_node_def)

text \<open>
  Detaching index 1 of the three children 1, 2, 3 returns node 2, which keeps its
  number; the children left are 1 and 3, in this order, and the size is 2.
\<close>

theorem detachItemFromArray_unlinks_witness:
  "children array3 0 [1, 2, 3] \<and> (0::int) \<le> 1 \<and> nat 1 < length [1, 2, 3 :: nat] \<and>
   (case sJSONdetachItemFromArray array3 0 1 of
      (h', r) \<Rightarrow> r = Some 2 \<and> children h' 0 [1, 3] \<and> sJSONgetArraySize h' 0 = Some 2 \<and>
        valueInt (h' 2) = 20)"
  using detachItemFromArray_unlinks [OF array3_children, of 1] array3_children
  by (auto simp: values_of_def array3_def zero_node_def dest!: spec [where x = 2])

section \<open>Members of an object\<close>

lemma dseg_last_item:
  "dseg h p (Some c) as None \<Longrightarrow> last_item h c = Some (last as)"
proof (induction as arbitrary: p c)
  case Nil
  then show ?case by simp
next
  case (Cons a as)
  then show ?case
    by (cases as) (auto simp: last_item.simps)
qed

lemma find_hash_none:
  "dseg h p c as None \<Longrightarrow> \<forall>x\<in>set as. nameHash (h x) \<noteq> hh \<Longrightarrow> find_hash h c hh = Some None"
  by (induction as arbitrary: p c) (auto simp: find_hash.simps)

lemma find_hash_first:
  "dseg h p c (xs @ v # ys) e \<Longrightarrow> \<forall>x\<in>set xs. nameHash (h x) \<noteq> hh \<Longrightarrow> nameHash (h v) = hh \<Longrightarrow>
     find_hash h c hh = Some (Some v)"
  by (induction xs arbitrary: p c) (auto simp: find_hash.simps)

lemma find_index_first:
  "dseg h p c (xs @ v # ys) e \<Longrightarrow> \<forall>x\<in>set xs. nameHash (h x) \<noteq> hh \<Longrightarrow> nameHash (h v) = hh \<Longrightarrow>
     find_index h c hh i = Some (Some v, i + int (length xs))"
  by (induction xs arbitrary: p c i) (auto simp: find_index.simps)

lemma add_links:
  assumes ch: "children h obj as" and v: "v \<notin> set as" "nxt (h v) = None" "prev (h v) = None"
  shows "\<exists>h1. sJSONaddItemToArray h obj (Some v) = Some h1 \<and> children h1 obj (as @ [v]) \<and>
           (\<forall>x. values_of (h1 x) = values_of (h x))"
proof (cases as)
  case Nil
  with ch have "child (h obj) = None"
    by (simp add: children_def)
  with v Nil show ?thesis
    by (auto simp: sJSONaddItemToArray_def children_def)
next
  case (Cons c cs)
  with ch have c: "child (h obj) = Some c" and whole: "dseg h None (Some c) as None"
    by (auto simp: children_def)
  from whole have l: "last_item h c = Some (last as)"
    by (rule dseg_last_item)
  define h1 where "h1 = suffix_object h (last as) v"
  from Cons have ne: "as \<noteq> []" by simp
  with v have lv: "last as \<noteq> v" by (auto dest: last_in_set)
  have f: "nxt (h1 x) = (if x = last as then Some v else nxt (h x))"
    "prev (h1 x) = (if x = v then Some (last as) else prev (h x))"
    "child (h1 x) = child (h x)" "values_of (h1 x) = values_of (h x)" for x
    using lv by (auto simp: h1_def suffix_object_def Let_def)
  from whole have "distinct as" by (rule dseg_distinct)
  with whole have "dseg h1 None (Some c) as (Some v)"
  proof (rule dseg_relink)
    show "\<forall>x\<in>set as. (as \<noteq> [] \<and> x = last as \<or> nxt (h1 x) = nxt (h x)) \<and>
                   (as \<noteq> [] \<and> x = hd as \<or> prev (h1 x) = prev (h x))"
      using v by (auto simp: f)
    show "as \<noteq> [] \<longrightarrow> nxt (h1 (last as)) = Some v \<and> prev (h1 (hd as)) = None"
      using v ne whole Cons by (auto simp: f)
    show "as = [] \<longrightarrow> Some v = Some c"
      using ne by simp
  qed
  moreover have "dseg h1 (Some (last as)) (Some v) [v] None"
    using lv v by (simp add: f)
  ultimately have "children h1 obj (as @ [v])"
    using c ne by (auto simp: children_def dseg_append f lastp_def)
  then show ?thesis
    using c l f(4) by (auto simp: sJSONaddItemToArray_def h1_def)
qed


lemma dseg_frame:
  "\<forall>x. nxt (h' x) = nxt (h x) \<and> prev (h' x) = prev (h x) \<Longrightarrow> dseg h' p c as e = dseg h p c as e"
  by (induction as arbitrary: p c) auto

lemma values_of_nameHash: "values_of n = values_of m \<Longrightarrow> nameHash n = nameHash m"
  by (simp add: values_of_def)

text \<open>
  Claim C2, amended: let the members of the object \<open>obj\<close> be the chain \<open>as\<close>,
  none of them with the hash of the name \<open>k\<close>, and let \<open>v\<close> be a node outside
  that chain without neighbours. Then \<^verbatim>\<open>sJSONaddItemToObject\<close> returns, a
  lookup of the hash of \<open>k\<close> after it yields \<open>v\<close>,
  \<^verbatim>\<open>sJSONdetachItemFromObject\<close> for \<open>k\<close> then returns \<open>v\<close>, and the same
  lookup after it yields the null pointer.
\<close>

theorem add_lookup_detach_lookup:
  assumes ch: "children h obj as"
    and v: "v \<notin> set as" "nxt (h v) = None" "prev (h v) = None"
    and fresh: "\<forall>x\<in>set as. nameHash (h x) \<noteq> murmurString env k"
  shows "\<exists>h1 h2.
           sJSONaddItemToObject env h obj k (Some v) = Some h1 \<and>
           sJSONgetObjectItem h1 obj (murmurString env k) = Some (Some v) \<and>
           sJSONdetachItemFromObject env h1 obj k = Some (h2, Some v) \<and>
           sJSONgetObjectItem h2 obj (murmurString env k) = Some None"
proof -
  define hh where "hh = murmurString env k"
  define h0 where
    "h0 = h(v := (h v)\<lparr>nameString := (if WRITE_SUPPORT_ENABLED env then Some k else nameString (h v)),
                        nameHash := hh\<rparr>)"
  have f0: "nxt (h0 x) = nxt (h x)" "prev (h0 x) = prev (h x)" "child (h0 x) = child (h x)"
    "nameHash (h0 x) = (if x = v then hh else nameHash (h x))" for x
    by (simp_all add: h0_def)
  from ch have "children h0 obj as"
    by (simp add: children_def f0 dseg_frame [of h0 h])
  with v obtain h1 where h1: "sJSONaddItemToArray h0 obj (Some v) = Some h1"
    "children h1 obj (as @ [v])" "\<forall>x. values_of (h1 x) = values_of (h0 x)"
    using add_links [of h0 obj as v] by (auto simp: f0)
  have n1: "nameHash (h1 x) = (if x = v then hh else nameHash (h x))" for x
    using h1(3) [rule_format, of x, THEN values_of_nameHash] f0(4) [of x] by simp
  have add: "sJSONaddItemToObject env h obj k (Some v) = Some h1"
    using h1(1) by (simp add: sJSONaddItemToObject_def h0_def hh_def)
  from h1(2) have whole: "dseg h1 None (child (h1 obj)) (as @ v # []) None"
    by (simp add: children_def)
  have nm: "\<forall>x\<in>set as. nameHash (h1 x) \<noteq> hh" "nameHash (h1 v) = hh"
    using fresh v(1) by (auto simp: n1 hh_def)
  from whole nm have look1: "sJSONgetObjectItem h1 obj hh = Some (Some v)"
    unfolding sJSONgetObjectItem_def by (rule find_hash_first)
  from whole nm have "find_index h1 (child (h1 obj)) hh 0 = Some (Some v, 0 + int (length as))"
    by (rule find_index_first)
  then have det: "sJSONdetachItemFromObject env h1 obj k =
      Some (sJSONdetachItemFromArray h1 obj (int (length as)))"
    by (simp add: sJSONdetachItemFromObject_def hh_def)
  obtain h2 r where d: "sJSONdetachItemFromArray h1 obj (int (length as)) = (h2, r)"
    by (cases "sJSONdetachItemFromArray h1 obj (int (length as))")
  with detach_unlinks [OF h1(2), of "int (length as)"]
  have r: "r = Some v" and ch2: "children h2 obj as" and vals: "\<forall>x. values_of (h2 x) = values_of (h1 x)"
    by auto
  have "nameHash (h2 x) = nameHash (h1 x)" for x
    using vals [rule_format, of x] by (rule values_of_nameHash)
  with nm(1) have "\<forall>x\<in>set as. nameHash (h2 x) \<noteq> hh"
    by simp
  with ch2 have look2: "sJSONgetObjectItem h2 obj hh = Some None"
    unfolding sJSONgetObjectItem_def children_def by (rule find_hash_none)
  from add look1 det d r look2 show ?thesis
    by (auto simp: hh_def)
qed

text \<open>
  Claim C2 as it is stated fails on an object that has a member of the same name
  already. The object at address 0 has the member 1 named \<^verbatim>\<open>a\<close>; after node
  2 is added under the name \<^verbatim>\<open>a\<close> the lookup yields node 1, not node 2;
  detaching \<^verbatim>\<open>a\<close> then removes node 1, and the lookup yields node 2, not
  the null pointer.
\<close>

theorem add_to_object_with_duplicate_name:
  "sJSONaddItemToObject exact_env dup_heap 0 ''a'' (Some 2) \<noteq> None \<and>
   sJSONgetObjectItem (the (sJSONaddItemToObject exact_env dup_heap 0 ''a'' (Some 2))) 0
     (murmurString exact_env ''a'') = Some (Some 1) \<and>
   sJSONdetachItemFromObject exact_env
     (the (sJSONaddItemToObject exact_env dup_heap 0 ''a'' (Some 2))) 0 ''a'' \<noteq> None \<and>
   snd (the (sJSONdetachItemFromObject exact_env
     (the (sJSONaddItemToObject exact_env dup_heap 0 ''a'' (Some 2))) 0 ''a'')) = Some 1 \<and>
   sJSONgetObjectItem
     (fst (the (sJSONdetachItemFromObject exact_env
        (the (sJSONaddItemToObject exact_env dup_heap 0 ''a'' (Some 2))) 0 ''a''))) 0
     (murmurString exact_env ''a'') = Some (Some 2)"
  by (simp add: sJSONaddItemToObject_def sJSONaddItemToArray_def dup_heap_def zero_node_def
        last_item.simps suffix_object_def Let_def sJSONgetObjectItem_def find_hash.simps
        sJSONdetachItemFromObject_def find_index.simps sJSONdetachItemFromArray_def walk.simps
        exact_env_def)

theorem add_lookup_detach_lookup_witness:
  "children array3 0 [1, 2, 3] \<and> (4::nat) \<notin> set [1, 2, 3] \<and> nxt (array3 4) = None \<and>
   prev (array3 4) = None \<and>
   nameHash (array3 1) \<noteq> murmurString exact_env ''k'' \<and>
   nameHash (array3 2) \<noteq> murmurString exact_env ''k'' \<and>
   nameHash (array3 3) \<noteq> murmurString exact_env ''k'' \<and>
   (\<exists>h1 h2.
      sJSONaddItemToObject exact_env array3 0 ''k'' (Some 4) = Some h1 \<and>
      sJSONgetObjectItem h1 0 (murmurString exact_env ''k'') = Some (Some 4) \<and>
      sJSONdetachItemFromObject exact_env h1 0 ''k'' = Some (h2, Some 4) \<and>
      sJSONgetObjectItem h2 0 (murmurString exact_env ''k'') = Some None)"
proof -
  have a: "(4::nat) \<notin> set [1, 2, 3]" "nxt (array3 4) = None" "prev (array3 4) = None"
    by (simp_all add: array3_def zero_node_def)
  have b: "nameHash (array3 1) \<noteq> murmurString exact_env ''k''"
    "nameHash (array3 2) \<noteq> murmurString exact_env ''k''"
    "nameHash (array3 3) \<noteq> murmurString exact_env ''k''"
    by (simp_all add: array3_def zero_node_def exact_env_def)
  then have c: "\<forall>x\<in>set [1, 2, 3]. nameHash (array3 x) \<noteq> murmurString exact_env ''k''"
    by simp
  from add_lookup_detach_lookup [OF array3_children a c] array3_children a b
  show ?thesis by blast
qed


section \<open>The bytes of a \<^verbatim>\<open>\u\<close> escape\<close>

text \<open>
  The masks and shifts of the \<^verbatim>\<open>case 'u'\<close> branch, read as arithmetic.
\<close>

lemma m6: "(0x3F :: 32 word) = mask 6"
  by (simp add: mask_eq_exp_minus_1)

lemma low6: "((w::32 word) OR 0x80) AND 0xBF = (w AND 0x3F) OR 0x80"
proof -
  have "(w OR 0x80) AND 0xBF = (w AND 0xBF) OR (0x80 AND 0xBF)"
    by (rule bit.conj_disj_distrib2)
  also have "(0x80 :: 32 word) AND 0xBF = 0x80"
    by simp
  also have "(0xBF :: 32 word) = 0x3F OR 0x80"
    by simp
  also have "w AND (0x3F OR 0x80) = (w AND 0x3F) OR (w AND 0x80)"
    by (rule bit.conj_disj_distrib)
  also have "((w AND 0x3F) OR (w AND 0x80)) OR 0x80 = (w AND 0x3F) OR ((w AND 0x80) OR 0x80)"
    by (simp add: or.assoc)
  also have "(w AND 0x80) OR 0x80 = 0x80"
    by (simp add: or.commute)
  finally show ?thesis by simp
qed

lemma cont_byte: "unat (((w::32 word) OR 0x80) AND 0xBF) = 128 + unat w mod 64"
proof -
  have "(w AND mask 6) AND 0x80 = w AND (mask 6 AND 0x80)"
    by (simp add: and.assoc)
  also have "(mask 6 :: 32 word) AND 0x80 = 0"
    by (simp add: mask_eq_exp_minus_1)
  finally have "(w AND mask 6) AND 0x80 = 0"
    by simp
  then have "(w AND mask 6) + 0x80 = (w AND mask 6) OR 0x80"
    by (rule disjunctive_add_eq_or)
  then have "(w OR 0x80) AND 0xBF = (w AND mask 6) + 0x80"
    by (simp add: low6 m6)
  moreover have "unat (w AND mask 6) = unat w mod 64"
    by (simp flip: take_bit_eq_mask add: unsigned_take_bit_eq take_bit_eq_mod unat_mod)
  moreover have "unat w mod 64 < 64"
    by simp
  ultimately show ?thesis
    by (simp add: unat_word_ariths)
qed


lemma drop6: "unat (drop_bit 6 (w::32 word)) = unat w div 64"
  by (simp add: unat_drop_bit_eq drop_bit_eq_div unat_div)

lemma lead_byte2:
  assumes "unat (w::32 word) < 32"
  shows "unat (w OR 0xC0) = 192 + unat w"
proof -
  from assms have "w < 2 ^ 5"
    by (simp add: word_less_nat_alt)
  then have "w AND mask 5 = w"
    by (rule less_mask_eq)
  then have "w AND 0xC0 = (w AND mask 5) AND 0xC0"
    by simp
  also have "\<dots> = w AND (mask 5 AND 0xC0)"
    by (simp add: and.assoc)
  also have "(mask 5 :: 32 word) AND 0xC0 = 0"
    by (simp add: mask_eq_exp_minus_1)
  finally have "w AND 0xC0 = 0"
    by simp
  then have "w + 0xC0 = w OR 0xC0"
    by (rule disjunctive_add_eq_or)
  then have "unat (w OR 0xC0) = unat (w + 0xC0)"
    by simp
  also from assms have "\<dots> = 192 + unat w"
    by (simp add: unat_word_ariths)
  finally show ?thesis .
qed

lemma lead_byte3:
  assumes "unat (w::32 word) < 16"
  shows "unat (w OR 0xE0) = 224 + unat w"
proof -
  from assms have "w < 2 ^ 4"
    by (simp add: word_less_nat_alt)
  then have "w AND mask 4 = w"
    by (rule less_mask_eq)
  then have "w AND 0xE0 = (w AND mask 4) AND 0xE0"
    by simp
  also have "\<dots> = w AND (mask 4 AND 0xE0)"
    by (simp add: and.assoc)
  also have "(mask 4 :: 32 word) AND 0xE0 = 0"
    by (simp add: mask_eq_exp_minus_1)
  finally have "w AND 0xE0 = 0"
    by simp
  then have "w + 0xE0 = w OR 0xE0"
    by (rule disjunctive_add_eq_or)
  then have "unat (w OR 0xE0) = unat (w + 0xE0)"
    by simp
  also from assms have "\<dots> = 224 + unat w"
    by (simp add: unat_word_ariths)
  finally show ?thesis .
qed

lemma utf8_bytes_spec:
  assumes "cp < 65536"
  shows "utf8_bytes (of_nat cp) = map char_of (spec_utf8 cp)"
proof -
  define uc :: "32 word" where "uc = of_nat cp"
  from assms have u: "unat uc = cp"
    by (simp add: uc_def unat_of_nat)
  have lt: "uc < 0x80 \<longleftrightarrow> cp < 128" "uc < 0x800 \<longleftrightarrow> cp < 2048"
    by (simp_all add: word_less_nat_alt u)
  have d1: "unat (drop_bit 6 uc) = cp div 64"
    by (simp add: drop6 u)
  have d2: "unat (drop_bit 12 uc) = cp div 4096"
    by (simp add: unat_drop_bit_eq drop_bit_eq_div unat_div u)
  show ?thesis
  proof (cases "cp < 128")
    case True
    then show ?thesis
      by (simp add: utf8_bytes_def lt spec_utf8_def firstByteMark_def to_char_def u
            flip: uc_def)
  next
    case False
    show ?thesis
    proof (cases "cp < 2048")
      case True
      then have "unat (drop_bit 6 uc) < 32"
        by (simp add: d1)
      then have "unat (drop_bit 6 uc OR 0xC0) = 192 + cp div 64"
        by (simp add: lead_byte2 d1)
      with True False show ?thesis
        by (simp add: utf8_bytes_def lt spec_utf8_def firstByteMark_def to_char_def u
              cont_byte Let_def flip: uc_def)
    next
      case big: False
      from assms have "unat (drop_bit 12 uc) < 16"
        by (simp add: d2)
      then have "unat (drop_bit 12 uc OR 0xE0) = 224 + cp div 4096"
        by (simp add: lead_byte3 d2)
      with big False show ?thesis
        by (simp add: utf8_bytes_def lt spec_utf8_def firstByteMark_def to_char_def u
              cont_byte d1 Let_def flip: uc_def)
    qed
  qed
qed


section \<open>Decoding a string literal\<close>

lemma peek_append: "peek (pre @ ys) (length pre + i) = peek ys i"
  by (auto simp: peek_def nth_append)

lemma peek_Cons_0: "peek (c # cs) 0 = Ret c"
  by (simp add: peek_def)

lemma peek_Cons_Suc: "peek (c # cs) (Suc i) = peek cs i"
  by (auto simp: peek_def)

lemma peek_at:
  "peek (pre @ c # cs) (length pre) = Ret c"
  "peek (pre @ c # d # cs) (Suc (length pre)) = Ret d"
  using peek_append [of pre "c # cs" 0] peek_append [of pre "c # d # cs" 1]
  by (simp_all add: peek_Cons_0 peek_Cons_Suc)

lemma hex_not_special: "is_hex c \<Longrightarrow> c \<noteq> dquote \<and> c \<noteq> NUL \<and> c \<noteq> bslash"
  by (auto simp: is_hex_def dquote_def NUL_def bslash_def)

lemma hex_val_less: "is_hex x \<Longrightarrow> hex_val x < 16"
  by (auto simp: is_hex_def hex_val_def)

lemma hex4_less:
  assumes "is_hex a" "is_hex b" "is_hex c" "is_hex d"
  shows "hex4 a b c d < 65536"
  using assms [THEN hex_val_less] by (simp add: hex4_def distrib_right)

lemma scan_hex4_at:
  assumes "is_hex a" "is_hex b" "is_hex c" "is_hex d"
  shows "scan_hex4 (pre @ x # y # a # b # c # d # rest) (Suc (Suc (length pre))) =
           Ret (of_nat (hex4 a b c d))"
  using assms by (simp add: scan_hex4_def hex4_def)

lemma decoded_length: "valid p \<Longrightarrow> length (spec_decoded p) \<le> counted p"
  by (cases p) (auto simp: spec_utf8_def)

lemma copy_piece:
  assumes "valid p"
  shows "copy_string (pre @ render p @ rest) (length pre) out =
           copy_string ((pre @ render p) @ rest) (length (pre @ render p)) (out @ spec_decoded p)"
proof (cases p)
  case (Plain c)
  with assms show ?thesis
    by (subst copy_string.simps) (simp add: peek_at)
next
  case (Escaped e)
  with assms show ?thesis
    by (subst copy_string.simps) (simp add: peek_at bslash_def dquote_def NUL_def)
next
  case (Unicode a b c d)
  with assms have "utf8_bytes (of_nat (hex4 a b c d)) = map char_of (spec_utf8 (hex4 a b c d))"
    by (simp add: hex4_less utf8_bytes_spec)
  moreover have six: "length pre + 6 = Suc (Suc (Suc (Suc (Suc (Suc (length pre))))))"
    by simp
  ultimately show ?thesis
    using Unicode assms
    by (subst copy_string.simps)
       (simp add: peek_at bslash_def dquote_def NUL_def scan_hex4_at [unfolded bslash_def] six)
qed

lemma copy_pieces:
  "list_all valid ps \<Longrightarrow>
     copy_string (pre @ concat (map render ps) @ rest) (length pre) out =
     copy_string (pre @ concat (map render ps) @ rest)
       (length pre + length (concat (map render ps))) (out @ concat (map spec_decoded ps))"
proof (induction ps arbitrary: pre out)
  case Nil
  then show ?case by simp
next
  case (Cons p ps)
  then have "valid p" "list_all valid ps" by simp_all
  from copy_piece [OF this(1), of pre "concat (map render ps) @ rest" out]
    Cons.IH [OF this(2), of "pre @ render p" "out @ spec_decoded p"]
  show ?case by (simp add: add.assoc)
qed

lemma measure_piece:
  assumes "valid p"
  shows "measure_string (pre @ render p @ rest) (length pre) n =
           measure_string ((pre @ render p) @ rest) (length (pre @ render p)) (n + counted p)"
proof (cases p)
  case (Plain c)
  with assms show ?thesis
    by (subst measure_string.simps) (simp add: peek_at)
next
  case (Escaped e)
  with assms show ?thesis
    by (subst measure_string.simps) (simp add: peek_at bslash_def dquote_def NUL_def)
next
  case (Unicode a b c d)
  from Unicode assms have h: "is_hex a" "is_hex b" "is_hex c" "is_hex d"
    by simp_all
  have step: "measure_string (xs @ x # ys) (length xs) k = measure_string ((xs @ [x]) @ ys) (length (xs @ [x])) (Suc k)"
    if "is_hex x" for xs x ys k
    using hex_not_special [OF that]
    by (subst measure_string.simps) (simp add: peek_at)
  have "measure_string (pre @ render p @ rest) (length pre) n =
      measure_string ((pre @ [bslash, CHR ''u'']) @ a # b # c # d # rest) (length (pre @ [bslash, CHR ''u''])) (Suc n)"
    unfolding Unicode
    by (subst measure_string.simps) (simp add: peek_at bslash_def dquote_def NUL_def)
  also have "\<dots> = measure_string ((pre @ [bslash, CHR ''u'', a]) @ b # c # d # rest) (length (pre @ [bslash, CHR ''u'', a])) (Suc (Suc n))"
    using step [OF h(1), of "pre @ [bslash, CHR ''u'']"] by simp
  also have "\<dots> = measure_string ((pre @ [bslash, CHR ''u'', a, b]) @ c # d # rest) (length (pre @ [bslash, CHR ''u'', a, b])) (Suc (Suc (Suc n)))"
    using step [OF h(2), of "pre @ [bslash, CHR ''u'', a]"] by simp
  also have "\<dots> = measure_string ((pre @ [bslash, CHR ''u'', a, b, c]) @ d # rest) (length (pre @ [bslash, CHR ''u'', a, b, c])) (Suc (Suc (Suc (Suc n))))"
    using step [OF h(3), of "pre @ [bslash, CHR ''u'', a, b]"] by simp
  also have "\<dots> = measure_string ((pre @ [bslash, CHR ''u'', a, b, c, d]) @ rest) (length (pre @ [bslash, CHR ''u'', a, b, c, d])) (Suc (Suc (Suc (Suc (Suc n)))))"
    using step [OF h(4), of "pre @ [bslash, CHR ''u'', a, b, c]"] by simp
  finally show ?thesis
    by (simp add: Unicode eval_nat_numeral)
qed

lemma measure_pieces:
  "list_all valid ps \<Longrightarrow>
     measure_string (pre @ concat (map render ps) @ rest) (length pre) n =
     measure_string (pre @ concat (map render ps) @ rest)
       (length pre + length (concat (map render ps))) (n + sum_list (map counted ps))"
proof (induction ps arbitrary: pre n)
  case Nil
  then show ?case by simp
next
  case (Cons p ps)
  then have "valid p" "list_all valid ps" by simp_all
  from measure_piece [OF this(1), of pre "concat (map render ps) @ rest" n]
    Cons.IH [OF this(2), of "pre @ render p" "n + counted p"]
  show ?case by (simp add: add.assoc)
qed

lemma decoded_lengths:
  "list_all valid ps \<Longrightarrow> length (concat (map spec_decoded ps)) \<le> sum_list (map counted ps)"
proof (induction ps)
  case Nil
  then show ?case by simp
next
  case (Cons p ps)
  then show ?case
    using decoded_length [of p] by simp
qed

lemma parse_string_pieces:
  assumes "list_all valid ps"
  shows "parse_string (pre @ dquote # concat (map render ps) @ dquote # rest) item (length pre) =
     Ret (upd (\<lambda>d. d\<lparr>valueString := Some (cstr (concat (map spec_decoded ps))),
                       type := sJSON_String\<rparr>) item,
          length pre + length (concat (map render ps)) + 2)"
proof -
  let ?body = "concat (map render ps)"
  let ?inp = "pre @ dquote # ?body @ dquote # rest"
  have inp: "?inp = (pre @ [dquote]) @ ?body @ dquote # rest"
    by simp
  have stop: "peek ?inp (length (pre @ [dquote]) + length ?body) = Ret dquote"
    using peek_at(1) [of "pre @ dquote # ?body" dquote rest] by simp
  have m: "measure_string ?inp (Suc (length pre)) 0 = Ret (sum_list (map counted ps))"
    using measure_pieces [OF assms, of "pre @ [dquote]" "dquote # rest" 0] stop
    by (subst (asm) measure_string.simps [of _ "length (pre @ [dquote]) + length ?body"])
       (simp add: )
  have c: "copy_string ?inp (Suc (length pre)) [] =
      Ret (concat (map spec_decoded ps), Suc (length pre) + length ?body)"
    using copy_pieces [OF assms, of "pre @ [dquote]" "dquote # rest" "[]"] stop
    by (subst (asm) copy_string.simps [of _ "length (pre @ [dquote]) + length ?body"])
       (simp add: )
  from decoded_lengths [OF assms] stop show ?thesis
    by (simp add: parse_string_def peek_at m c)
qed

text \<open>
  Claim C7: for a literal whose body is a sequence of valid pieces, standing anywhere in
  a text, \<^verbatim>\<open>parse_string\<close> returns behind the closing quote, and the string it
  stores consists of what the pieces stand for (up to the first NUL, which only
  \<^verbatim>\<open>\u0000\<close> can produce): a plain character for itself, \<^verbatim>\<open>\b \f \n \r \t\<close>
  for the control characters 8, 12, 10, 13 and 9, a backslash before any other character
  (so \<^verbatim>\<open>\\\<close> and \<^verbatim>\<open>\"\<close>) for that character, and \<^verbatim>\<open>\uXXXX\<close>
  for the one to three bytes of the UTF-8 encoding of the code point, a surrogate being
  encoded like any other code point.
\<close>

theorem parse_string_decodes:
  assumes "list_all valid ps"
  shows "parse_string (pre @ dquote # concat (map render ps) @ dquote # rest) item (length pre) =
     Ret (upd (\<lambda>d. d\<lparr>valueString := Some (cstr (concat (map spec_decoded ps))),
                       type := sJSON_String\<rparr>) item,
          length pre + length (concat (map render ps)) + 2)"
  using assms by (rule parse_string_pieces)

text \<open>
  A literal with the body \<^verbatim>\<open>a\u00e9\n\"\<close>: the escape
  \<^verbatim>\<open>\u00e9\<close> becomes the two bytes C3 A9.
\<close>

theorem parse_string_decodes_witness:
  "list_all valid [Plain (CHR ''a''), Unicode (CHR ''0'') (CHR ''0'') (CHR ''e'') (CHR ''9''),
      Escaped (CHR ''n''), Escaped dquote] \<and>
   parse_string ([dquote, CHR ''a'', bslash] @ ''u00e9'' @ [bslash, CHR ''n'', bslash, dquote, dquote])
       (sJSON_New_Item exact_env) 0 =
     Ret (upd (\<lambda>d. d\<lparr>valueString := Some [CHR ''a'', CHR 0xC3, CHR 0xA9, CHR 0x0A, dquote],
                       type := sJSON_String\<rparr>)
            (sJSON_New_Item exact_env), 13)"
proof -
  have v: "list_all valid [Plain (CHR ''a''), Unicode (CHR ''0'') (CHR ''0'') (CHR ''e'') (CHR ''9''),
      Escaped (CHR ''n''), Escaped dquote]"
    by (simp add: is_hex_def dquote_def bslash_def NUL_def)
  have d: "concat (map spec_decoded [Plain (CHR ''a''), Unicode (CHR ''0'') (CHR ''0'') (CHR ''e'') (CHR ''9''),
      Escaped (CHR ''n''), Escaped dquote]) = [CHR ''a'', CHR 0xC3, CHR 0xA9, CHR 0x0A, dquote]"
    by (simp add: hex4_def hex_val_def spec_utf8_def char_of_eq_iff dquote_def)
  have c: "cstr [CHR ''a'', CHR 0xC3, CHR 0xA9, CHR 0x0A, dquote] = [CHR ''a'', CHR 0xC3, CHR 0xA9, CHR 0x0A, dquote]"
    by (simp add: cstr_def NUL_def dquote_def)
  from parse_string_decodes [OF v, of "[]" "[]" "sJSON_New_Item exact_env", unfolded d c] v
  show ?thesis by simp
qed


section \<open>Encoding and decoding a string\<close>

lemma hex_digits_all:
  "list_all (\<lambda>m. is_hex (''0123456789abcdef'' ! m) \<and> hex_val (''0123456789abcdef'' ! m) = m)
     [0..<16]"
  by code_simp

lemma hex_digit_props: "is_hex (hex_digit n) \<and> hex_val (hex_digit n) = n mod 16"
proof -
  have "n mod 16 \<in> set [0..<16]" by simp
  with hex_digits_all show ?thesis
    unfolding hex_digit_def list_all_iff by blast
qed

lemma char_cases:
  obtains (plain) "(31::nat) < of_char c" "c \<noteq> dquote" "c \<noteq> bslash" "c \<noteq> CHR 0x08"
      "c \<noteq> CHR 0x0C" "c \<noteq> CHR 0x0A" "c \<noteq> CHR 0x0D" "c \<noteq> CHR 0x09"
  | (bs) "c = bslash" | (dq) "c = dquote"
  | (b) "c = CHR 0x08" | (f) "c = CHR 0x0C" | (n) "c = CHR 0x0A" | (r) "c = CHR 0x0D"
  | (t) "c = CHR 0x09"
  | (other) "(of_char c :: nat) < 32" "c \<noteq> bslash" "c \<noteq> dquote" "c \<noteq> CHR 0x08"
      "c \<noteq> CHR 0x0C" "c \<noteq> CHR 0x0A" "c \<noteq> CHR 0x0D" "c \<noteq> CHR 0x09"
  by (cases "(31::nat) < of_char c") auto

lemma print_chars_step:
  assumes "c \<noteq> NUL"
  shows "print_chars (c # cs) = render (piece_of c) @ print_chars cs"
proof (cases c rule: char_cases)
  case plain
  with assms show ?thesis by (simp add: piece_of_def)
next
  case bs
  with assms show ?thesis by (simp add: piece_of_def bslash_def dquote_def NUL_def)
next
  case dq
  with assms show ?thesis by (simp add: piece_of_def bslash_def dquote_def NUL_def)
next
  case b
  with assms show ?thesis by (simp add: piece_of_def bslash_def dquote_def NUL_def)
next
  case f
  with assms show ?thesis by (simp add: piece_of_def bslash_def dquote_def NUL_def)
next
  case n
  with assms show ?thesis by (simp add: piece_of_def bslash_def dquote_def NUL_def)
next
  case r
  with assms show ?thesis by (simp add: piece_of_def bslash_def dquote_def NUL_def)
next
  case t
  with assms show ?thesis by (simp add: piece_of_def bslash_def dquote_def NUL_def)
next
  case other
  with assms show ?thesis by (simp add: piece_of_def sprintf_u04x_def)
qed

lemma print_chars_pieces:
  "NUL \<notin> set s \<Longrightarrow> print_chars s = concat (map render (map piece_of s))"
  by (induction s) (auto simp: print_chars_step simp del: print_chars.simps(2))

lemma piece_of_valid: "c \<noteq> NUL \<Longrightarrow> valid (piece_of c)"
  by (auto simp: piece_of_def hex_digit_props NUL_def dquote_def bslash_def)

lemma piece_of_decoded: "spec_decoded (piece_of c) = [c]"
proof (cases c rule: char_cases)
  case plain
  then show ?thesis by (simp add: piece_of_def)
next
  case bs
  then show ?thesis by (simp add: piece_of_def bslash_def dquote_def)
next
  case dq
  then show ?thesis by (simp add: piece_of_def bslash_def dquote_def)
next
  case b
  then show ?thesis by (simp add: piece_of_def bslash_def dquote_def)
next
  case f
  then show ?thesis by (simp add: piece_of_def bslash_def dquote_def)
next
  case n
  then show ?thesis by (simp add: piece_of_def bslash_def dquote_def)
next
  case r
  then show ?thesis by (simp add: piece_of_def bslash_def dquote_def)
next
  case t
  then show ?thesis by (simp add: piece_of_def bslash_def dquote_def)
next
  case other
  from other(1) have "(of_char c :: nat) div 4096 = 0" "(of_char c :: nat) div 256 = 0"
    "(of_char c :: nat) div 16 * 16 + of_char c mod 16 = of_char c" "(of_char c :: nat) div 16 < 16"
    by simp_all
  then have "hex4 (hex_digit (of_char c div 4096)) (hex_digit (of_char c div 256))
      (hex_digit (of_char c div 16)) (hex_digit (of_char c)) = of_char c"
    by (simp add: hex4_def hex_digit_props)
  moreover from other(1) have "map char_of (spec_utf8 (of_char c)) = [c]"
    by (simp add: spec_utf8_def)
  ultimately show ?thesis
    using other by (simp add: piece_of_def)
qed

lemma print_len_step:
  assumes "c \<noteq> NUL"
  shows "print_len (c # cs) n = print_len cs (n + length (render (piece_of c)))"
proof (cases c rule: char_cases)
  case plain
  with assms show ?thesis
    by (simp add: piece_of_def is_short_escape_def bslash_def dquote_def)
next
  case bs
  with assms show ?thesis by (simp add: piece_of_def is_short_escape_def)
next
  case dq
  with assms show ?thesis by (simp add: piece_of_def is_short_escape_def)
next
  case b
  with assms show ?thesis by (simp add: piece_of_def is_short_escape_def bslash_def dquote_def NUL_def)
next
  case f
  with assms show ?thesis by (simp add: piece_of_def is_short_escape_def bslash_def dquote_def NUL_def)
next
  case n
  with assms show ?thesis by (simp add: piece_of_def is_short_escape_def bslash_def dquote_def NUL_def)
next
  case r
  with assms show ?thesis by (simp add: piece_of_def is_short_escape_def bslash_def dquote_def NUL_def)
next
  case t
  with assms show ?thesis by (simp add: piece_of_def is_short_escape_def bslash_def dquote_def NUL_def)
next
  case other
  have six: "n + 6 = Suc (Suc (Suc (Suc (Suc (Suc n)))))" by simp
  from other assms show ?thesis by (simp add: piece_of_def is_short_escape_def six)
qed

lemma print_len_eq: "NUL \<notin> set s \<Longrightarrow> print_len s n = n + length (print_chars s)"
proof (induction s arbitrary: n)
  case Nil
  then show ?case by simp
next
  case (Cons c s)
  then have c: "c \<noteq> NUL" and s: "NUL \<notin> set s" by auto
  from Cons.IH [OF s, of "n + length (render (piece_of c))"] show ?case
    by (simp only: print_len_step [OF c] print_chars_step [OF c] length_append add.assoc)
qed

lemma cstr_id: "NUL \<notin> set s \<Longrightarrow> cstr s = s"
  by (auto simp: cstr_def takeWhile_eq_all_conv)

text \<open>
  The encoding of a string without NUL is a literal that decodes to the string.
\<close>

lemma print_parse_string:
  assumes "NUL \<notin> set s"
  shows "\<exists>out. print_string_ptr (Some s) = Ret out \<and>
           parse_string out item 0 =
             Ret (upd (\<lambda>d. d\<lparr>valueString := Some s, type := sJSON_String\<rparr>) item, length out)"
proof -
  let ?ps = "map piece_of s"
  from assms have v: "list_all valid ?ps"
    by (induction s) (auto simp: piece_of_valid)
  have d: "concat (map spec_decoded ?ps) = s"
    by (induction s) (simp_all add: piece_of_decoded)
  from assms have r: "concat (map render ?ps) = print_chars s"
    by (simp add: print_chars_pieces)
  from assms have "print_string_ptr (Some s) = Ret (dquote # print_chars s @ [dquote])"
    by (simp add: print_string_ptr_def print_len_eq)
  moreover from parse_string_pieces [OF v, of "[]" "[]" item, unfolded d r] assms
  have "parse_string (dquote # print_chars s @ [dquote]) item 0 =
          Ret (upd (\<lambda>d. d\<lparr>valueString := Some s, type := sJSON_String\<rparr>) item,
               length (dquote # print_chars s @ [dquote]))"
    by (simp add: cstr_id)
  ultimately show ?thesis by blast
qed

text \<open>
  Claim C8: for every string \<open>s\<close> that a \<^verbatim>\<open>char *\<close> can hold (no NUL in it),
  so for every such ASCII string, with control characters, quotes and backslashes,
  \<^verbatim>\<open>print_string_ptr\<close> returns a text on which \<^verbatim>\<open>parse_string\<close> consumes
  all of it and stores \<open>s\<close>.
\<close>

theorem print_parse_roundtrip:
  assumes "NUL \<notin> set s"
  shows "\<exists>out. print_string_ptr (Some s) = Ret out \<and>
           parse_string out item 0 =
             Ret (upd (\<lambda>d. d\<lparr>valueString := Some s, type := sJSON_String\<rparr>) item, length out)"
  using assms by (rule print_parse_string)

theorem print_parse_roundtrip_witness:
  "NUL \<notin> set [CHR ''a'', CHR 0x01, CHR 0x0A, dquote, bslash] \<and>
   print_string_ptr (Some [CHR ''a'', CHR 0x01, CHR 0x0A, dquote, bslash]) =
     Ret ([dquote, CHR ''a'', bslash] @ ''u0001'' @ [bslash, CHR ''n'', bslash, dquote, bslash, bslash, dquote]) \<and>
   parse_string ([dquote, CHR ''a'', bslash] @ ''u0001'' @ [bslash, CHR ''n'', bslash, dquote, bslash, bslash, dquote])
       (sJSON_New_Item exact_env) 0 =
     Ret (upd (\<lambda>d. d\<lparr>valueString := Some [CHR ''a'', CHR 0x01, CHR 0x0A, dquote, bslash],
                       type := sJSON_String\<rparr>)
            (sJSON_New_Item exact_env), 15)"
proof -
  have n: "NUL \<notin> set [CHR ''a'', CHR 0x01, CHR 0x0A, dquote, bslash]"
    by (simp add: NUL_def dquote_def bslash_def)
  have p: "print_string_ptr (Some [CHR ''a'', CHR 0x01, CHR 0x0A, dquote, bslash]) =
     Ret ([dquote, CHR ''a'', bslash] @ ''u0001'' @ [bslash, CHR ''n'', bslash, dquote, bslash, bslash, dquote])"
    by (simp add: print_string_ptr_def NUL_def dquote_def bslash_def is_short_escape_def
          sprintf_u04x_def hex_digit_def)
  from print_parse_roundtrip [OF n, of "sJSON_New_Item exact_env"] n p
  show ?thesis by auto
qed


section \<open>Reading a number\<close>

text \<open>
  The loops of \<^verbatim>\<open>parse_number\<close> on a run of digits, then its five statements
  on the five parts of a literal, then the function on the whole literal.
\<close>

lemma peek_first: "peek (P @ s) (length P) = Ret (first s)"
  by (cases s) (simp_all add: peek_def first_def nth_append)

lemma int_part_digits:
  "list_all is_digit ds \<Longrightarrow> \<not> is_digit (first R) \<Longrightarrow>
     int_part env (P @ d # ds @ R) (length P) n =
       Ret (foldl (accum env) n (d # ds), length P + length (d # ds))"
proof (induction ds arbitrary: P d n)
  case Nil
  from peek_first [of "P @ [d]" R] peek_first [of P "d # R"] Nil show ?case
    by (subst int_part.simps) (simp add: first_def)
next
  case (Cons e ds)
  from peek_first [of "P @ [d]" "e # ds @ R"] peek_first [of P "d # e # ds @ R"]
    Cons.IH [of "P @ [d]" e "accum env n d"] Cons.prems
  show ?case
    by (subst int_part.simps) (simp add: first_def)
qed

lemma dec_funpow:
  "((\<lambda>s. dbl_sub env s u) ^^ k) (dbl_sub env sc u) = dbl_sub env (((\<lambda>s. dbl_sub env s u) ^^ k) sc) u"
  by (induction k) simp_all

lemma frac_part_digits:
  "list_all is_digit ds \<Longrightarrow> \<not> is_digit (first R) \<Longrightarrow>
     frac_part env (P @ d # ds @ R) (length P) n sc =
       Ret (foldl (accum env) n (d # ds),
            ((\<lambda>s. dbl_sub env s (dbl_of_int env 1)) ^^ length (d # ds)) sc,
            length P + length (d # ds))"
proof (induction ds arbitrary: P d n sc)
  case Nil
  from peek_first [of "P @ [d]" R] peek_first [of P "d # R"] Nil show ?case
    by (subst frac_part.simps) (simp add: first_def)
next
  case (Cons e ds)
  from peek_first [of "P @ [d]" "e # ds @ R"] peek_first [of P "d # e # ds @ R"]
    Cons.IH [of "P @ [d]" e "accum env n d" "dbl_sub env sc (dbl_of_int env 1)"] Cons.prems
  show ?case
    by (subst frac_part.simps) (simp add: first_def dec_funpow)
qed

lemma digit_val_range: "is_digit c \<Longrightarrow> 0 \<le> digit_val c \<and> digit_val c \<le> 9"
  by (auto simp: is_digit_def digit_val_def)

lemma digits_value_mono: "list_all is_digit ds \<Longrightarrow> 0 \<le> v \<Longrightarrow> v \<le> digits_value v ds"
proof (induction ds arbitrary: v)
  case Nil
  then show ?case by (simp add: digits_value_def)
next
  case (Cons c ds)
  then have "0 \<le> digit_val c" by (simp add: digit_val_range)
  with Cons.prems have "v \<le> v * 10 + digit_val c" "0 \<le> v * 10 + digit_val c" by simp_all
  with Cons.IH [of "v * 10 + digit_val c"] Cons.prems show ?case
    by (simp add: digits_value_def)
qed

lemma exp_part_digits:
  "list_all is_digit ds \<Longrightarrow> \<not> is_digit (first R) \<Longrightarrow> 0 \<le> v \<Longrightarrow>
   digits_value v ds \<le> INT_MAX \<Longrightarrow>
     exp_part (P @ ds @ R) (length P) v = Ret (digits_value v ds, length P + length ds)"
proof (induction ds arbitrary: P v)
  case Nil
  from peek_first [of P R] Nil show ?case
    by (subst exp_part.simps) (simp add: digits_value_def)
next
  case (Cons c ds)
  let ?w = "v * 10 + digit_val c"
  from Cons.prems have c: "is_digit c" "list_all is_digit ds" by simp_all
  with Cons.prems have w: "0 \<le> ?w" using digit_val_range [of c] by simp
  from Cons.prems have dv: "digits_value ?w ds \<le> INT_MAX" by (simp add: digits_value_def)
  with digits_value_mono [OF c(2) w] have "?w \<le> INT_MAX" by simp
  with peek_first [of P "c # ds @ R"] c Cons.IH [OF c(2) Cons.prems(2) w dv, of "P @ [c]"]
  show ?case
    by (subst exp_part.simps) (simp add: first_def digits_value_def)
qed

lemma first_append: "first (a @ b) = (if a = [] then first b else first a)"
  by (cases a) (simp_all add: first_def)

lemma first_Cons [simp]: "first (c # cs) = c"
  by (simp add: first_def)

lemma digit_chars:
  "is_digit c \<Longrightarrow> c \<noteq> CHR ''-'' \<and> c \<noteq> CHR ''+'' \<and> c \<noteq> CHR ''.'' \<and> c \<noteq> CHR ''e'' \<and> c \<noteq> CHR ''E''"
  by (auto simp: is_digit_def)

lemma first_digits: "list_all is_digit ds \<Longrightarrow> ds \<noteq> [] \<Longrightarrow> is_digit (first ds)"
  by (cases ds) simp_all

lemma stage_sign:
  assumes "\<not> negative l \<longrightarrow> first S \<noteq> CHR ''-''"
  shows "number_sign env (P @ render_sign l @ S) (length P) =
           Ret (dbl_of_int env (if negative l then - 1 else 1), length P + length (render_sign l))"
  using assms peek_first [of P "render_sign l @ S"]
  by (simp add: number_sign_def render_sign_def)

lemma stage_zero:
  assumes "\<not> leading_zero l \<longrightarrow> first S \<noteq> CHR ''0''"
  shows "number_zero (P @ render_zero l @ S) (length P) = Ret (length P + length (render_zero l))"
  using assms peek_first [of P "render_zero l @ S"]
  by (simp add: number_zero_def render_zero_def)

lemma nonzero_digit:
  assumes "is_digit d" "d \<noteq> CHR ''0''"
  shows "(49::nat) \<le> of_char d \<and> (of_char d :: nat) \<le> 57"
proof -
  have "(of_char d :: nat) \<noteq> 48"
  proof
    assume "(of_char d :: nat) = 48"
    then have "char_of (of_char d :: nat) = char_of (48 :: nat)"
      by simp
    with assms(2) show False
      by (simp add: char_of_eq_iff)
  qed
  with assms(1) show ?thesis
    by (simp add: is_digit_def)
qed

lemma stage_int:
  assumes "list_all is_digit ip" "ip = [] \<or> hd ip \<noteq> CHR ''0''" "\<not> is_digit (first S)"
  shows "number_int env (P @ ip @ S) (length P) n = Ret (foldl (accum env) n ip, length P + length ip)"
proof (cases ip)
  case Nil
  with assms peek_first [of P S] show ?thesis
    by (auto simp: number_int_def is_digit_def)
next
  case (Cons d ds)
  with assms have "(49::nat) \<le> of_char d \<and> (of_char d :: nat) \<le> 57"
    by (simp add: nonzero_digit)
  with Cons assms peek_first [of P "d # ds @ S"] int_part_digits [of ds S env P d n]
  show ?thesis
    by (simp add: number_int_def)
qed

lemma stage_frac:
  assumes "list_all is_digit (frac_digits l)" "\<not> is_digit (first S)"
    "frac_digits l = [] \<longrightarrow> first S \<noteq> CHR ''.''"
  shows "number_frac env (P @ render_frac l @ S) (length P) n sc =
           Ret (foldl (accum env) n (frac_digits l),
                ((\<lambda>s. dbl_sub env s (dbl_of_int env 1)) ^^ length (frac_digits l)) sc,
                length P + length (render_frac l))"
proof (cases "frac_digits l")
  case Nil
  with assms peek_first [of P S] show ?thesis
    by (simp add: number_frac_def render_frac_def)
next
  case (Cons d ds)
  with assms peek_first [of P "CHR ''.'' # d # ds @ S"]
    frac_part_digits [of ds S env "P @ ''.''" d n sc]
  show ?thesis
    by (simp add: number_frac_def render_frac_def)
qed

lemma stage_exp:
  assumes v: "case exp_text l of
                None \<Rightarrow> True
              | Some (e, sg, ds) \<Rightarrow>
                  (e = CHR ''e'' \<or> e = CHR ''E'') \<and> (sg = [] \<or> sg = ''+'' \<or> sg = ''-'') \<and>
                  list_all is_digit ds \<and> digits_value 0 ds \<le> INT_MAX"
    and S: "\<not> number_char (first S)"
  shows "\<exists>subscale signsubscale.
           number_exp (P @ render_exp l @ S) (length P) 0 1 =
             Ret (subscale, signsubscale, length P + length (render_exp l)) \<and>
           subscale * signsubscale = spec_exponent l"
proof (cases "exp_text l")
  case None
  with S peek_first [of P S] show ?thesis
    by (simp add: number_exp_def render_exp_def spec_exponent_def number_char_def)
next
  case (Some t)
  obtain e sg ds where t: "t = (e, sg, ds)"
    by (cases t)
  from v Some t have e: "e = CHR ''e'' \<or> e = CHR ''E''" and sg: "sg = [] \<or> sg = ''+'' \<or> sg = ''-''"
    and ds: "list_all is_digit ds" "digits_value 0 ds \<le> INT_MAX"
    by simp_all
  from S have nd: "\<not> is_digit (first S)"
    by (simp add: number_char_def)
  have p0: "peek (P @ e # sg @ ds @ S) (length P) = Ret e"
    using peek_first [of P "e # sg @ ds @ S"] by simp
  have p1: "peek (P @ e # sg @ ds @ S) (Suc (length P)) = Ret (first (sg @ ds @ S))"
    using peek_first [of "P @ [e]" "sg @ ds @ S"] by simp
  have f: "sg = [] \<Longrightarrow> first (sg @ ds @ S) \<noteq> CHR ''+'' \<and> first (sg @ ds @ S) \<noteq> CHR ''-''"
    using ds(1) S first_digits [of ds] digit_chars [of "first ds"]
    by (auto simp: first_append number_char_def)
  have ex: "exp_part (P @ e # sg @ ds @ S) (length (P @ e # sg)) 0 =
      Ret (digits_value 0 ds, length (P @ e # sg) + length ds)"
    using exp_part_digits [OF ds(1) nd _ ds(2), of "P @ e # sg"] by simp
  from sg show ?thesis
  proof (elim disjE)
    assume sg: "sg = []"
    from f [OF sg] ex e p0 p1 show ?thesis
      unfolding sg by (simp add: number_exp_def render_exp_def spec_exponent_def Some t sg)
  next
    assume sg: "sg = ''+''"
    from ex e p0 p1 show ?thesis
      unfolding sg by (simp add: number_exp_def render_exp_def spec_exponent_def Some t sg)
  next
    assume sg: "sg = ''-''"
    from ex e p0 p1 show ?thesis
      unfolding sg by (simp add: number_exp_def render_exp_def spec_exponent_def Some t sg)
  qed
qed

text \<open>
  The mantissa that the two loops accumulate with \<open>accum\<close> is the one of the
  specification.
\<close>

lemma mantissa_accum: "foldl (accum env) (dbl_of_int env 0) ds = spec_mantissa env ds"
proof -
  have "accum env = (\<lambda>m c. dbl_add env (dbl_mul env m (dbl_of_int env 10)) (dbl_of_int env (digit_val c)))"
    by (intro ext) (simp add: accum_def)
  then show ?thesis
    by (simp add: spec_mantissa_def)
qed

text \<open>
  The function on a literal that stands anywhere in a text, after \<open>P\<close> and before
  a text \<open>R\<close> that does not continue the number: it consumes the literal, computes
  \<open>sign * mantissa * 10^(scale + exponent)\<close> and converts it to \<^verbatim>\<open>int\<close>;
  it returns when this conversion is defined, and then \<^verbatim>\<open>valueInt\<close> is the
  number with its fractional part cut off.
\<close>

lemma parse_number_literal:
  assumes v: "valid_num l" and R: "\<not> number_char (first R)"
  shows "parse_number env (P @ render_num l @ R) item (length P) =
     obind (int_of_dbl env (spec_number env l)) (\<lambda>i.
       Ret (upd (\<lambda>d. d\<lparr>valueDouble := spec_number env l, valueInt := i,
                         type := sJSON_Number\<rparr>) item,
            length P + length (render_num l)))"
proof -
  let ?S4 = "render_exp l @ R"
  let ?S3 = "render_frac l @ ?S4"
  let ?S2 = "int_digits l @ ?S3"
  let ?S1 = "render_zero l @ ?S2"
  let ?inp = "P @ render_num l @ R"
  from v have ip: "list_all is_digit (int_digits l)" "int_digits l = [] \<or> hd (int_digits l) \<noteq> CHR ''0''"
    and fd: "list_all is_digit (frac_digits l)"
    and ex: "case exp_text l of
                None \<Rightarrow> True
              | Some (e, sg, ds) \<Rightarrow>
                  (e = CHR ''e'' \<or> e = CHR ''E'') \<and> (sg = [] \<or> sg = ''+'' \<or> sg = ''-'') \<and>
                  list_all is_digit ds \<and> digits_value 0 ds \<le> INT_MAX"
    by (simp_all add: valid_num_def)
  have f4: "first ?S4 = CHR ''e'' \<or> first ?S4 = CHR ''E'' \<or> first ?S4 = first R"
    using ex by (auto simp: render_exp_def first_append split: option.splits)
  with R have n4: "\<not> is_digit (first ?S4)" "first ?S4 \<noteq> CHR ''.''" "first ?S4 \<noteq> CHR ''-''"
      "first ?S4 \<noteq> CHR ''0''"
    by (auto simp: number_char_def is_digit_def)
  have f3: "first ?S3 = CHR ''.'' \<or> first ?S3 = first ?S4"
    by (auto simp: render_frac_def first_append)
  with n4 have n3: "\<not> is_digit (first ?S3)" "first ?S3 \<noteq> CHR ''-''" "first ?S3 \<noteq> CHR ''0''"
    by (auto simp: is_digit_def)
  have f2: "int_digits l \<noteq> [] \<and> first ?S2 = hd (int_digits l) \<or> first ?S2 = first ?S3"
    by (cases "int_digits l") (auto simp: first_append)
  with n3 ip have n2: "first ?S2 \<noteq> CHR ''-''" "first ?S2 \<noteq> CHR ''0''"
    using digit_chars [of "hd (int_digits l)"] by (cases "int_digits l"; auto)+
  have f1: "first ?S1 = CHR ''0'' \<or> first ?S1 = first ?S2"
    by (auto simp: render_zero_def first_append)
  with n2 have n1: "first ?S1 \<noteq> CHR ''-''"
    by auto
  define q1 where "q1 = length (P @ render_sign l)"
  define q2 where "q2 = length (P @ render_sign l @ render_zero l)"
  define q3 where "q3 = length (P @ render_sign l @ render_zero l @ int_digits l)"
  define q4 where "q4 = length (P @ render_sign l @ render_zero l @ int_digits l @ render_frac l)"
  define q5 where "q5 = length P + length (render_num l)"
  have s1: "number_sign env ?inp (length P) = Ret (dbl_of_int env (if negative l then - 1 else 1), q1)"
    using stage_sign [of l ?S1 env P] n1 by (simp add: render_num_def q1_def)
  have s2: "number_zero ?inp q1 = Ret q2"
    using stage_zero [of l ?S2 "P @ render_sign l"] n2 by (simp add: render_num_def q1_def q2_def)
  have s3: "number_int env ?inp q2 n = Ret (foldl (accum env) n (int_digits l), q3)" for n
    using stage_int [OF ip n3(1), of env "P @ render_sign l @ render_zero l" n]
    by (simp add: render_num_def q2_def q3_def)
  have s4: "number_frac env ?inp q3 n sc =
      Ret (foldl (accum env) n (frac_digits l),
           ((\<lambda>s. dbl_sub env s (dbl_of_int env 1)) ^^ length (frac_digits l)) sc, q4)" for n sc
    using stage_frac [OF fd n4(1), of env "P @ render_sign l @ render_zero l @ int_digits l" n sc] n4(2)
    by (simp add: render_num_def q3_def q4_def)
  obtain subscale signsubscale where s5:
    "number_exp ?inp q4 0 1 = Ret (subscale, signsubscale, q5)"
    "subscale * signsubscale = spec_exponent l"
    using stage_exp [OF ex R, of "P @ render_sign l @ render_zero l @ int_digits l @ render_frac l"]
    by (auto simp: render_num_def q4_def q5_def)
  have m: "foldl (accum env) (foldl (accum env) (dbl_of_int env 0) (int_digits l)) (frac_digits l) =
             spec_mantissa env (int_digits l @ frac_digits l)"
    by (simp add: spec_mantissa_def accum_def [abs_def])
  show ?thesis
    by (simp add: parse_number_def s1 s2 s3 s4 s5 m spec_number_def scale_of_def Let_def flip: q5_def)
qed

text \<open>
  In exact arithmetic the number of a literal is the sign times the integer that the
  digits of both parts denote, times ten to the exponent less the number of fractional
  digits.
\<close>

lemma mantissa_exact:
  "foldl (\<lambda>m c. m * 10 + rat_of_int (digit_val c)) (of_int v) ds = of_int (digits_value v ds)"
proof (induction ds arbitrary: v)
  case Nil
  show ?case by (simp add: digits_value_def)
next
  case (Cons c ds)
  have "foldl (\<lambda>m c. m * 10 + rat_of_int (digit_val c)) (of_int v) (c # ds) =
          foldl (\<lambda>m c. m * 10 + rat_of_int (digit_val c)) (of_int (v * 10 + digit_val c)) ds"
    by simp
  also have "\<dots> = of_int (digits_value (v * 10 + digit_val c) ds)"
    by (rule Cons)
  finally show ?case
    by (simp add: digits_value_def)
qed

lemma scale_of_exact: "scale_of exact_env k = - of_nat k"
  by (induction k) (simp_all add: scale_of_def exact_env_def)

lemma spec_number_exact:
  "spec_number exact_env l =
     (if negative l then - 1 else 1) * of_int (digits_value 0 (int_digits l @ frac_digits l)) *
       10 powi (spec_exponent l - int (length (frac_digits l)))"
proof -
  have "spec_mantissa exact_env (int_digits l @ frac_digits l) =
          of_int (digits_value 0 (int_digits l @ frac_digits l))"
    using mantissa_exact [of 0 "int_digits l @ frac_digits l"]
    by (simp add: spec_mantissa_def exact_env_def)
  moreover have "\<lfloor>- rat_of_nat (length (frac_digits l)) + rat_of_int (spec_exponent l)\<rfloor> =
          spec_exponent l - int (length (frac_digits l))"
  proof -
    have "- rat_of_nat (length (frac_digits l)) + rat_of_int (spec_exponent l) =
            rat_of_int (spec_exponent l - int (length (frac_digits l)))"
      by simp
    then show ?thesis
      by (simp only: floor_of_int)
  qed
  ultimately show ?thesis
    by (simp add: spec_number_def scale_of_exact) (simp add: exact_env_def)
qed

text \<open>The literal \<^verbatim>\<open>-12.5e-1\<close> in the text \<^verbatim>\<open>[-12.5e-1,\<close>.\<close>

lemma lit_small_facts:
  "valid_num lit_small" "\<not> number_char (first '','')" "render_num lit_small = ''-12.5e-1''"
  "spec_number exact_env lit_small = - 5 / 4" "int_of_dbl exact_env (- 5 / 4) = Ret (- 1)"
  by code_simp+

lemma small_literal:
  "parse_number exact_env (''['' @ ''-12.5e-1'' @ '','') (sJSON_New_Item exact_env) 1 =
     Ret (upd (\<lambda>d. d\<lparr>valueDouble := - 5 / 4, valueInt := - 1, type := sJSON_Number\<rparr>)
            (sJSON_New_Item exact_env), 9)"
  using parse_number_literal [OF lit_small_facts(1,2), of exact_env "''[''" "sJSON_New_Item exact_env"]
    lit_small_facts(3,4,5)
  by simp

text \<open>
  The exponent \<^verbatim>\<open>2147483648\<close> is one more than \<^verbatim>\<open>INT_MAX\<close>: the
  accumulation \<^verbatim>\<open>subscale=(subscale*10)+(*num++ - '0')\<close> overflows
  \<^verbatim>\<open>int subscale\<close> at the last digit.
\<close>

lemma exponent_overflow:
  "parse_number env ''[1e2147483648]'' item 1 = Fault SignedOverflow"
  by (simp add: parse_number_def number_sign_def number_zero_def number_int_def number_frac_def
        number_exp_def int_part.simps exp_part.simps peek_def is_digit_def digit_val_def
        INT_MAX_def NUL_def)

text \<open>
  Claim C6 says that for every numeric literal the parser accepts the node holds
  \<open>sign * mantissa * 10^(scale + exponent)\<close> and its integer truncation. The
  document \<^verbatim>\<open>[1e2147483648]\<close> holds a numeric literal, and
  \<^verbatim>\<open>parse_number\<close> has no path that refuses one; on it the signed overflow of
  \<^verbatim>\<open>subscale\<close> is undefined behaviour, in every environment and with any
  fuel beyond the three nested calls, so that no value is stored.
\<close>

theorem exponent_beyond_int:
  "sJSONparse (Suc (Suc (Suc n))) env ''[1e2147483648]'' = Fault SignedOverflow"
  using exponent_overflow [of env "sJSON_New_Item env"]
  by (simp add: sJSONparse_def skip_loop.simps skip_white.simps peek_def NUL_def dquote_def
        skip_parsed_def is_digit_def eval_nat_numeral)

text \<open>
  Two more literals on which the function leaves defined behaviour. The number
  \<^verbatim>\<open>3000000000\<close> has no integer truncation in \<^verbatim>\<open>int valueInt\<close>, and
  \<^verbatim>\<open>(int)n\<close> is undefined on it. After a decimal point the
  \<^verbatim>\<open>do ... while\<close> loop takes one character as a digit whatever it is: in
  \<^verbatim>\<open>[1.]\<close> the closing bracket counts as the digit 45 and is consumed, and
  in \<^verbatim>\<open>1.\<close> at the end of a text the terminating NUL is consumed and the next
  read is outside the text.
\<close>

lemma conversion_out_of_range:
  "sJSONparse 3 exact_env ''[3000000000]'' = Fault ConversionOutOfRange"
  by code_simp

lemma point_without_digit:
  "parse_number exact_env ''[1.]'' (sJSON_New_Item exact_env) 1 =
     Ret (upd (\<lambda>d. d\<lparr>valueDouble := 11 / 2, valueInt := 5, type := sJSON_Number\<rparr>)
            (sJSON_New_Item exact_env), 4)"
  "parse_number exact_env ''1.'' (sJSON_New_Item exact_env) 0 = Fault OutOfBounds"
  by code_simp+

end
